theory Spec2Isabelle
  imports Complex_Main "HOL-Library.AList"
begin

section \<open>The LRU cache with TTL of \<^verbatim>\<open>LRU-ALGORITHM/cache-lru.py\<close>\<close>

text \<open>
  The cache is a Python dictionary (the index) over the nodes of a doubly linked list with
  two sentinels (the ledger). The nodes are mutable objects that the dictionary and the
  list share, so the model keeps them in an explicit store: an address is a natural number,
  the heap maps every address to the fields of the node that lives there, and \<open>fresh\<close> is
  the next unused address. A reference that Python would print as \<^verbatim>\<open>None\<close> is
  \<open>None\<close>; following it raises \<^verbatim>\<open>AttributeError\<close>, as it does in Python.

  Keys and values are arbitrary Python objects, \<^verbatim>\<open>None\<close> included (the two sentinels
  carry \<^verbatim>\<open>None\<close> as key and value): they have the types \<open>'k option\<close> and
  \<open>'v option\<close>, where \<open>None\<close> stands for Python's \<^verbatim>\<open>None\<close>. Keys are compared with
  HOL equality.

  Time is \<^verbatim>\<open>time.time() * 1000\<close>, a float of milliseconds; the model computes with
  exact reals and does not model rounding or overflow of floats. The clock is an input:
  an operation receives the readings it takes, in the order in which it takes them, and
  nothing is assumed about them, not even that they grow.

  The arguments are what the type hints of the module say: the capacity and the time to
  live are integers, and a key is hashable, so that looking it up does not raise.
\<close>

subsection \<open>Data\<close>

type_synonym addr = nat

text \<open>\<^verbatim>\<open>class Node\<close>: \<open>val\<close> is the attribute \<^verbatim>\<open>value\<close> and \<open>nxt\<close> the attribute
  \<^verbatim>\<open>next\<close>.\<close>

record ('k, 'v) node =
  key :: "'k option"
  val :: "'v option"
  expire_time :: real
  prev :: "addr option"
  nxt :: "addr option"

text \<open>\<^verbatim>\<open>class LRUCacheWithTTL\<close>: the attributes \<open>capacity\<close>, \<open>cache\<close>, \<open>head\<close> and
  \<open>tail\<close>, and the store. The dictionary \<open>cache\<close> is an association list in insertion
  order, which is the order in which Python iterates over it.\<close>

record ('k, 'v) lru =
  capacity :: int
  cache :: "('k option \<times> addr) list"
  head :: addr
  tail :: addr
  heap :: "addr \<Rightarrow> ('k, 'v) node"
  fresh :: addr

text \<open>The exceptions of the module: the two \<^verbatim>\<open>ValueError\<close>s it raises itself, with their
  messages, and the two that the interpreter raises on a \<^verbatim>\<open>None\<close> reference and on a
  missing dictionary key.\<close>

datatype error = ValueError string | AttributeError | KeyError

text \<open>A method takes the object and returns what it returns or raises, together with the
  object as the call leaves it: an exception does not undo the assignments made before it.\<close>

type_synonym ('k, 'v, 'a) action = "('k, 'v) lru \<Rightarrow> (error + 'a) \<times> ('k, 'v) lru"

definition bind :: "('k, 'v, 'a) action \<Rightarrow> ('a \<Rightarrow> ('k, 'v, 'b) action) \<Rightarrow> ('k, 'v, 'b) action" where
  "bind m f s = (case m s of (Inl e, s') \<Rightarrow> (Inl e, s') | (Inr x, s') \<Rightarrow> f x s')"

definition set_prev :: "addr \<Rightarrow> addr option \<Rightarrow> ('k, 'v) lru \<Rightarrow> ('k, 'v) lru" where
  "set_prev a p s = s\<lparr>heap := (heap s)(a := (heap s a)\<lparr>prev := p\<rparr>)\<rparr>"

definition set_nxt :: "addr \<Rightarrow> addr option \<Rightarrow> ('k, 'v) lru \<Rightarrow> ('k, 'v) lru" where
  "set_nxt a n s = s\<lparr>heap := (heap s)(a := (heap s a)\<lparr>nxt := n\<rparr>)\<rparr>"

subsection \<open>The methods\<close>

text \<open>\<^verbatim>\<open>Node.__init__\<close>: a new object at the next unused address.\<close>

definition Node :: "'k option \<Rightarrow> 'v option \<Rightarrow> real \<Rightarrow> ('k, 'v) lru \<Rightarrow> addr \<times> ('k, 'v) lru" where
  "Node k v e s =
     (fresh s,
      s\<lparr>heap := (heap s)(fresh s := \<lparr>key = k, val = v, expire_time = e, prev = None, nxt = None\<rparr>),
        fresh := Suc (fresh s)\<rparr>)"

text \<open>\<^verbatim>\<open>LRUCacheWithTTL.__init__\<close>: the guard, and \<open>new_lru\<close> for the assignments after
  it. The head sentinel is allocated first, the tail sentinel second; before that the store
  holds no node.\<close>

definition new_lru :: "int \<Rightarrow> ('k, 'v) lru" where
  "new_lru cap =
     (let s0 = \<lparr>capacity = cap, cache = [], head = 0, tail = 0,
                heap = (\<lambda>_. \<lparr>key = None, val = None, expire_time = 0, prev = None, nxt = None\<rparr>),
                fresh = 0\<rparr>;
          (h, s1) = Node None None 0 s0;
          (t, s2) = Node None None 0 (s1\<lparr>head := h\<rparr>);
          s3 = s2\<lparr>tail := t\<rparr>;
          s4 = set_nxt (head s3) (Some (tail s3)) s3
      in set_prev (tail s4) (Some (head s4)) s4)"

definition init :: "int \<Rightarrow> error + ('k, 'v) lru" where
  "init cap =
     (if cap \<le> 0 then Inl (ValueError ''Capacity must be positive'')
      else Inr (new_lru cap))"

text \<open>\<^verbatim>\<open>_remove_node\<close>: \<^verbatim>\<open>node.prev.next = node.next\<close>, then
  \<^verbatim>\<open>node.next.prev = node.prev\<close>; each right-hand side is read before the target.\<close>

definition remove_node :: "addr \<Rightarrow> ('k, 'v, unit) action" where
  "remove_node a s =
     (case prev (heap s a) of
        None \<Rightarrow> (Inl AttributeError, s)
      | Some p \<Rightarrow>
          let s1 = set_nxt p (nxt (heap s a)) s in
          (case nxt (heap s1 a) of
             None \<Rightarrow> (Inl AttributeError, s1)
           | Some n \<Rightarrow> (Inr (), set_prev n (prev (heap s1 a)) s1)))"

text \<open>\<^verbatim>\<open>_add_to_head\<close>.\<close>

definition add_to_head :: "addr \<Rightarrow> ('k, 'v, unit) action" where
  "add_to_head a s =
     (let s1 = set_prev a (Some (head s)) s;
          s2 = set_nxt a (nxt (heap s1 (head s1))) s1
      in case nxt (heap s2 (head s2)) of
           None \<Rightarrow> (Inl AttributeError, s2)
         | Some f \<Rightarrow>
             let s3 = set_prev f (Some a) s2
             in (Inr (), set_nxt (head s3) (Some a) s3))"

text \<open>\<^verbatim>\<open>_move_to_head\<close>.\<close>

definition move_to_head :: "addr \<Rightarrow> ('k, 'v, unit) action" where
  "move_to_head a = bind (remove_node a) (\<lambda>_. add_to_head a)"

text \<open>\<^verbatim>\<open>_remove_tail\<close>: when \<^verbatim>\<open>self.tail.prev\<close> is \<^verbatim>\<open>None\<close>, the first attribute
  access of \<^verbatim>\<open>_remove_node\<close> raises.\<close>

definition remove_tail :: "('k, 'v, addr) action" where
  "remove_tail s =
     (case prev (heap s (tail s)) of
        None \<Rightarrow> (Inl AttributeError, s)
      | Some lru_node \<Rightarrow> bind (remove_node lru_node) (\<lambda>_ s'. (Inr lru_node, s')) s)"

text \<open>\<^verbatim>\<open>_is_expired\<close>, at the clock reading \<open>now\<close>.\<close>

definition is_expired :: "real \<Rightarrow> ('k, 'v) node \<Rightarrow> bool" where
  "is_expired now n = (now \<ge> expire_time n)"

text \<open>\<^verbatim>\<open>del self.cache[key]\<close> and \<^verbatim>\<open>self.cache[key] = node\<close>: an assignment to a
  key that is present keeps its position, a new key goes to the end.\<close>

definition del_cache :: "'k option \<Rightarrow> ('k, 'v, unit) action" where
  "del_cache k s =
     (case map_of (cache s) k of
        None \<Rightarrow> (Inl KeyError, s)
      | Some _ \<Rightarrow> (Inr (), s\<lparr>cache := AList.delete k (cache s)\<rparr>))"

definition set_cache :: "'k option \<Rightarrow> addr \<Rightarrow> ('k, 'v) lru \<Rightarrow> ('k, 'v) lru" where
  "set_cache k a s = s\<lparr>cache := AList.update k a (cache s)\<rparr>"

text \<open>\<^verbatim>\<open>_cleanup_expired\<close>. The first loop reads the clock once for every entry of the
  dictionary, in its order: \<open>clk i\<close> is the reading taken for the entry at position \<open>i\<close>.
  The second loop removes the keys the first one collected.\<close>

definition expired_keys :: "(nat \<Rightarrow> real) \<Rightarrow> ('k, 'v) lru \<Rightarrow> 'k option list" where
  "expired_keys clk s =
     map (\<lambda>(i, k, a). k)
       (filter (\<lambda>(i, k, a). is_expired (clk i) (heap s a)) (enumerate 0 (cache s)))"

fun remove_keys :: "'k option list \<Rightarrow> ('k, 'v, unit) action" where
  "remove_keys [] s = (Inr (), s)"
| "remove_keys (k # ks) s =
     (case map_of (cache s) k of
        None \<Rightarrow> (Inl KeyError, s)
      | Some a \<Rightarrow> bind (remove_node a) (\<lambda>_. bind (del_cache k) (\<lambda>_. remove_keys ks)) s)"

definition cleanup_expired :: "(nat \<Rightarrow> real) \<Rightarrow> ('k, 'v, unit) action" where
  "cleanup_expired clk s = remove_keys (expired_keys clk s) s"

text \<open>\<^verbatim>\<open>get\<close>, at the clock reading \<open>now\<close>.\<close>

definition get :: "real \<Rightarrow> 'k option \<Rightarrow> ('k, 'v, 'v option) action" where
  "get now k s =
     (case map_of (cache s) k of
        None \<Rightarrow> (Inr None, s)
      | Some a \<Rightarrow>
          if is_expired now (heap s a)
          then bind (remove_node a) (\<lambda>_. bind (del_cache k) (\<lambda>_ s'. (Inr None, s'))) s
          else bind (move_to_head a) (\<lambda>_ s'. (Inr (val (heap s' a)), s')) s)"

text \<open>The block of \<^verbatim>\<open>put\<close> under \<^verbatim>\<open>if len(self.cache) >= self.capacity\<close>: the
  sweep and, when the cache is still full after it, the eviction of the node before the
  tail.\<close>

definition make_room :: "(nat \<Rightarrow> real) \<Rightarrow> ('k, 'v, unit) action" where
  "make_room clk s =
     (if int (length (cache s)) \<ge> capacity s
      then bind (cleanup_expired clk)
             (\<lambda>_ s. if int (length (cache s)) \<ge> capacity s
                    then bind remove_tail (\<lambda>lru_node s. del_cache (key (heap s lru_node)) s) s
                    else (Inr (), s)) s
      else (Inr (), s))"

text \<open>\<^verbatim>\<open>put\<close>: \<open>clk 0\<close> is the reading of \<^verbatim>\<open>current_time_ms\<close>, and \<open>clk (Suc i)\<close> the
  reading that the sweep takes for the entry at position \<open>i\<close>.\<close>

definition put :: "(nat \<Rightarrow> real) \<Rightarrow> 'k option \<Rightarrow> 'v option \<Rightarrow> int \<Rightarrow> ('k, 'v, unit) action" where
  "put clk k v ttl_ms s =
     (if ttl_ms \<le> 0 then (Inl (ValueError ''TTL must be positive''), s)
      else
        let current_time_ms = clk 0;
            expire = current_time_ms + real_of_int ttl_ms
        in case map_of (cache s) k of
             Some a \<Rightarrow>
               move_to_head a
                 (s\<lparr>heap := (heap s)(a := (heap s a)\<lparr>val := v, expire_time := expire\<rparr>)\<rparr>)
           | None \<Rightarrow>
               let (new_node, s1) = Node k v expire s
               in bind (make_room (\<lambda>i. clk (Suc i)))
                    (\<lambda>_ s. add_to_head new_node (set_cache k new_node s)) s1)"

text \<open>\<^verbatim>\<open>size\<close>.\<close>

definition size_lru :: "('k, 'v) lru \<Rightarrow> int" where
  "size_lru s = int (length (cache s))"

text \<open>\<^verbatim>\<open>clear\<close>.\<close>

definition clear :: "('k, 'v, unit) action" where
  "clear s =
     (let s1 = s\<lparr>cache := []\<rparr>;
          s2 = set_nxt (head s1) (Some (tail s1)) s1
      in (Inr (), set_prev (tail s2) (Some (head s2)) s2))"

subsection \<open>Sequences of calls\<close>

text \<open>A client calls \<^verbatim>\<open>get\<close>, \<^verbatim>\<open>put\<close> and \<^verbatim>\<open>clear\<close> in any order, with any
  arguments and at any clock readings. The object after a call is the one the call leaves
  behind, also when the call raises.\<close>

datatype ('k, 'v) call =
    Get real "'k option"
  | Put "nat \<Rightarrow> real" "'k option" "'v option" int
  | Clear

fun step :: "('k, 'v) call \<Rightarrow> ('k, 'v) lru \<Rightarrow> ('k, 'v) lru" where
  "step (Get now k) s = snd (get now k s)"
| "step (Put clk k v ttl_ms) s = snd (put clk k v ttl_ms s)"
| "step Clear s = snd (clear s)"

definition run :: "('k, 'v) call list \<Rightarrow> ('k, 'v) lru \<Rightarrow> ('k, 'v) lru" where
  "run cs s = fold step cs s"






text \<open>Two caches of the module's own test suite, with the clock at 0 while they are filled:
  the one of test 5, of capacity 2, after \<^verbatim>\<open>put("a", 1, 5000)\<close> and
  \<^verbatim>\<open>put("b", 2, 5000)\<close>, and the one of test 6, of capacity 3, after
  \<^verbatim>\<open>put("a", 1, 200)\<close>, \<^verbatim>\<open>put("b", 2, 5000)\<close> and \<^verbatim>\<open>put("c", 3, 5000)\<close>.\<close>

definition small_cache :: "(string, nat) lru" where
  "small_cache =
     run [Put (\<lambda>_. 0) (Some ''a'') (Some 1) 5000, Put (\<lambda>_. 0) (Some ''b'') (Some 2) 5000]
       (new_lru 2)"

definition mixed_cache :: "(string, nat) lru" where
  "mixed_cache =
     run [Put (\<lambda>_. 0) (Some ''a'') (Some 1) 200, Put (\<lambda>_. 0) (Some ''b'') (Some 2) 5000,
          Put (\<lambda>_. 0) (Some ''c'') (Some 3) 5000]
       (new_lru 3)"

subsection \<open>The ledger and the structural invariant\<close>

text \<open>\<open>follow p a ns b\<close>: starting at \<open>a\<close> and following the pointer \<open>p\<close> one visits the
  nodes \<open>ns\<close>, in this order, and then arrives at \<open>b\<close>.\<close>

fun follow :: "(addr \<Rightarrow> addr option) \<Rightarrow> addr \<Rightarrow> addr list \<Rightarrow> addr \<Rightarrow> bool" where
  "follow p a [] b = (p a = Some b)"
| "follow p a (n # ns) b = (p a = Some n \<and> follow p n ns b)"

definition nxt_of :: "('k, 'v) lru \<Rightarrow> addr \<Rightarrow> addr option" where
  "nxt_of s a = nxt (heap s a)"

definition prev_of :: "('k, 'v) lru \<Rightarrow> addr \<Rightarrow> addr option" where
  "prev_of s a = prev (heap s a)"

text \<open>\<open>ledger s ns\<close>: the list between the sentinels holds exactly the nodes \<open>ns\<close>, from the
  most recently used to the least recently used one; \<^verbatim>\<open>next\<close> leads from the head
  through \<open>ns\<close> to the tail, \<^verbatim>\<open>prev\<close> leads from the tail through the same nodes in
  reverse to the head, and no node occurs twice.\<close>

definition ledger :: "('k, 'v) lru \<Rightarrow> addr list \<Rightarrow> bool" where
  "ledger s ns =
     (follow (nxt_of s) (head s) ns (tail s) \<and>
      follow (prev_of s) (tail s) (rev ns) (head s) \<and>
      distinct (head s # ns @ [tail s]))"

text \<open>\<open>index_ok s ns\<close>: the dictionary is a bijection between its keys and the nodes \<open>ns\<close>,
  and every entry leads to the node that carries its key.\<close>

definition index_ok :: "('k, 'v) lru \<Rightarrow> addr list \<Rightarrow> bool" where
  "index_ok s ns =
     (distinct (map fst (cache s)) \<and> distinct (map snd (cache s)) \<and>
      set (map snd (cache s)) = set ns \<and>
      list_all (\<lambda>(k, a). key (heap s a) = k) (cache s))"

text \<open>The structural invariant; its last part says that every node in use has been
  allocated, so that a new node is none of them.\<close>

definition cache_inv :: "('k, 'v) lru \<Rightarrow> addr list \<Rightarrow> bool" where
  "cache_inv s ns =
     (0 < capacity s \<and> ledger s ns \<and> index_ok s ns \<and>
      list_all (\<lambda>a. a < fresh s) (head s # ns @ [tail s]))"

text \<open>What the cache holds under a key: the value and the expiry time of its record.\<close>

definition entry :: "('k, 'v) lru \<Rightarrow> 'k option \<Rightarrow> ('v option \<times> real) option" where
  "entry s k = map_option (\<lambda>a. (val (heap s a), expire_time (heap s a))) (map_of (cache s) k)"

text \<open>What a sweep with the clock readings \<open>clk\<close> leaves of the dictionary, and of a
  ledger \<open>ns\<close>.\<close>

definition swept :: "(nat \<Rightarrow> real) \<Rightarrow> ('k, 'v) lru \<Rightarrow> ('k option \<times> addr) list" where
  "swept clk s = filter (\<lambda>e. fst e \<notin> set (expired_keys clk s)) (cache s)"

definition survivors :: "(nat \<Rightarrow> real) \<Rightarrow> ('k, 'v) lru \<Rightarrow> addr list \<Rightarrow> addr list" where
  "survivors clk s ns = filter (\<lambda>a. a \<in> snd ` set (swept clk s)) ns"

text \<open>\<open>same_nodes s s'\<close>: the two states differ at most in the dictionary and in the links
  of the nodes.\<close>

definition same_nodes :: "('k, 'v) lru \<Rightarrow> ('k, 'v) lru \<Rightarrow> bool" where
  "same_nodes s s' =
     (capacity s' = capacity s \<and> head s' = head s \<and> tail s' = tail s \<and> fresh s' = fresh s \<and>
      (\<forall>a. key (heap s' a) = key (heap s a) \<and> val (heap s' a) = val (heap s a) \<and>
           expire_time (heap s' a) = expire_time (heap s a)))"

section \<open>Verification\<close>

subsection \<open>Pointer paths\<close>

lemma follow_append: "follow p a (xs @ y # ys) b = (follow p a xs y \<and> follow p y ys b)"
  by (induction xs arbitrary: a) auto

lemma follow_upd_other: "x \<notin> set (a # ns) \<Longrightarrow> follow (p(x := v)) a ns b = follow p a ns b"
  by (induction ns arbitrary: a) auto

lemma follow_at: "follow p a (xs @ x # ys) b \<Longrightarrow> p x = Some (hd (ys @ [b]))"
  by (cases ys) (auto simp: follow_append)

lemma follow_first: "follow p a ns b \<Longrightarrow> p a = Some (hd (ns @ [b]))"
  by (cases ns) auto

lemma last_rev_hd: "last (t # rev ys) = hd (ys @ [t])"
  by (cases ys) auto

lemma hd_rev_last: "hd (rev xs @ [h]) = last (h # xs)"
  by (cases xs rule: rev_cases) auto

lemma follow_remove:
  "follow p a (xs @ x # ys) b \<Longrightarrow> distinct (a # xs @ x # ys) \<Longrightarrow>
   follow (p(last (a # xs) := p x)) a (xs @ ys) b"
proof (induction xs arbitrary: a)
  case Nil
  show ?case
  proof (cases ys)
    case Nil
    with Nil.prems show ?thesis by simp
  next
    case (Cons y ys')
    with Nil.prems have "follow p y ys' b" and "a \<notin> set (y # ys')" and "p x = Some y"
      by auto
    then have "follow (p(a := p x)) y ys' b" and "(p(a := p x)) a = Some y"
      using follow_upd_other [of a y ys' p "p x" b] by simp_all
    with Cons show ?thesis by (simp del: fun_upd_apply)
  qed
next
  case (Cons z zs)
  from Cons.prems have "follow (p(last (z # zs) := p x)) z (zs @ ys) b"
    by (intro Cons.IH) auto
  moreover from Cons.prems have "a \<noteq> last (z # zs)"
    by (metis distinct.simps(2) last_in_set list.distinct(1) Un_iff set_append)
  moreover from Cons.prems have "p a = Some z" by simp
  moreover have "last (a # z # zs) = last (z # zs)" by simp
  ultimately show ?case by (simp del: fun_upd_apply last.simps add: fun_upd_other)
qed

lemma follow_cons:
  "follow p a ns b \<Longrightarrow> x \<notin> set (a # ns) \<Longrightarrow> a \<notin> set ns \<Longrightarrow>
   follow (p(x := p a, a := Some x)) a (x # ns) b"
  by (cases ns) (auto simp: follow_upd_other)

lemma follow_snoc:
  "follow p b ms a \<Longrightarrow> x \<notin> set (b # ms) \<Longrightarrow> distinct (b # ms) \<Longrightarrow>
   follow (p(x := Some a, last (b # ms) := Some x)) b (ms @ [x]) a"
proof (induction ms arbitrary: b)
  case Nil
  then show ?case by auto
next
  case (Cons m ms)
  from Cons.prems have "follow (p(x := Some a, last (m # ms) := Some x)) m (ms @ [x]) a"
    by (intro Cons.IH) auto
  moreover from Cons.prems have "b \<noteq> last (m # ms)"
    by (metis distinct.simps(2) last_in_set list.distinct(1))
  moreover from Cons.prems have "p b = Some m" and "b \<noteq> x" by auto
  moreover have "last (b # m # ms) = last (m # ms)" by simp
  ultimately show ?case by (simp del: fun_upd_apply last.simps add: fun_upd_other)
qed

lemma nxt_of_set_nxt: "nxt_of (set_nxt a v s) = (nxt_of s)(a := v)"
  by (auto simp: nxt_of_def set_nxt_def)

lemma nxt_of_set_prev: "nxt_of (set_prev a v s) = nxt_of s"
  by (auto simp: nxt_of_def set_prev_def)

lemma prev_of_set_prev: "prev_of (set_prev a v s) = (prev_of s)(a := v)"
  by (auto simp: prev_of_def set_prev_def)

lemma prev_of_set_nxt: "prev_of (set_nxt a v s) = prev_of s"
  by (auto simp: prev_of_def set_nxt_def)

lemma fields_set_nxt:
  "head (set_nxt a v s) = head s" "tail (set_nxt a v s) = tail s"
  "cache (set_nxt a v s) = cache s" "capacity (set_nxt a v s) = capacity s"
  "fresh (set_nxt a v s) = fresh s"
  by (simp_all add: set_nxt_def)

lemma fields_set_prev:
  "head (set_prev a v s) = head s" "tail (set_prev a v s) = tail s"
  "cache (set_prev a v s) = cache s" "capacity (set_prev a v s) = capacity s"
  "fresh (set_prev a v s) = fresh s"
  by (simp_all add: set_prev_def)

lemma same_nodes_refl: "same_nodes s s"
  by (simp add: same_nodes_def)

lemma same_nodes_trans: "same_nodes s s' \<Longrightarrow> same_nodes s' s'' \<Longrightarrow> same_nodes s s''"
  by (simp add: same_nodes_def)

lemma same_nodes_set_nxt: "same_nodes s (set_nxt a v s)"
  by (simp add: same_nodes_def set_nxt_def)

lemma same_nodes_set_prev: "same_nodes s (set_prev a v s)"
  by (simp add: same_nodes_def set_prev_def)

lemmas link_simps = nxt_of_set_nxt nxt_of_set_prev prev_of_set_prev prev_of_set_nxt
  fields_set_nxt fields_set_prev

lemma remove_node_ledger:
  assumes "ledger s (xs @ a # ys)"
  shows "\<exists>s'. remove_node a s = (Inr (), s') \<and> ledger s' (xs @ ys) \<and> same_nodes s s' \<and>
             cache s' = cache s"
proof -
  let ?p = "last (head s # xs)" and ?n = "hd (ys @ [tail s])"
  from assms have fw: "follow (nxt_of s) (head s) (xs @ a # ys) (tail s)"
    and bw: "follow (prev_of s) (tail s) (rev ys @ a # rev xs) (head s)"
    and dist: "distinct (head s # (xs @ a # ys) @ [tail s])"
    by (simp_all add: ledger_def)
  have n: "nxt_of s a = Some ?n" using follow_at [OF fw] .
  have p: "prev_of s a = Some ?p" using follow_at [OF bw] by (simp add: hd_rev_last)
  have ap: "a \<noteq> ?p" using dist
    by (metis Un_iff distinct.simps(2) distinct_append last_in_set list.distinct(1) set_ConsD
        set_append list.set_intros(1) append_Cons disjoint_iff)
  define s1 where "s1 = set_nxt ?p (nxt_of s a) s"
  define s2 where "s2 = set_prev ?n (prev_of s1 a) s1"
  have n1: "nxt_of s1 a = Some ?n" using n ap by (simp add: s1_def link_simps)
  have p1: "prev_of s1 a = Some ?p" using p by (simp add: s1_def link_simps)
  have run: "remove_node a s = (Inr (), s2)"
    using n p n1 p1 unfolding s2_def s1_def
    by (simp add: remove_node_def nxt_of_def prev_of_def Let_def del: last.simps)
  have fw': "follow (nxt_of s2) (head s2) (xs @ ys) (tail s2)"
    using follow_remove [OF fw] dist by (simp add: s2_def s1_def link_simps)
  have "follow ((prev_of s)(last (tail s # rev ys) := prev_of s a)) (tail s) (rev ys @ rev xs) (head s)"
    using dist by (intro follow_remove [OF bw]) auto
  then have bw': "follow (prev_of s2) (tail s2) (rev (xs @ ys)) (head s2)"
    using p by (simp add: s2_def s1_def link_simps last_rev_hd del: last.simps)
  have "ledger s2 (xs @ ys)"
    using fw' bw' dist by (simp add: ledger_def) (simp add: s2_def s1_def link_simps)
  moreover have "same_nodes s s2"
    unfolding s2_def s1_def by (simp add: same_nodes_def set_nxt_def set_prev_def)
  moreover have "cache s2 = cache s" by (simp add: s2_def s1_def link_simps)
  ultimately show ?thesis using run by blast
qed

lemma add_to_head_ledger:
  assumes "ledger s ns" and "a \<notin> set (head s # ns @ [tail s])"
  shows "\<exists>s'. add_to_head a s = (Inr (), s') \<and> ledger s' (a # ns) \<and> same_nodes s s' \<and>
             cache s' = cache s"
proof -
  let ?f = "hd (ns @ [tail s])"
  from assms have fw: "follow (nxt_of s) (head s) ns (tail s)"
    and bw: "follow (prev_of s) (tail s) (rev ns) (head s)"
    and dist: "distinct (head s # ns @ [tail s])"
    by (simp_all add: ledger_def)
  have f: "nxt_of s (head s) = Some ?f" using follow_first [OF fw] .
  define s1 where "s1 = set_prev a (Some (head s)) s"
  define s2 where "s2 = set_nxt a (nxt_of s1 (head s1)) s1"
  define s3 where "s3 = set_prev ?f (Some a) s2"
  define s4 where "s4 = set_nxt (head s3) (Some a) s3"
  have ah: "a \<noteq> head s" using assms(2) by auto
  have f2: "nxt_of s2 (head s2) = Some ?f"
    using f ah by (simp add: s2_def s1_def link_simps)
  have run: "add_to_head a s = (Inr (), s4)"
    using f2 unfolding s4_def s3_def s2_def s1_def
    by (simp add: add_to_head_def nxt_of_def Let_def)
  have "follow ((nxt_of s)(a := nxt_of s (head s), head s := Some a)) (head s) (a # ns) (tail s)"
    using assms(2) dist by (intro follow_cons [OF fw]) auto
  then have fw': "follow (nxt_of s4) (head s4) (a # ns) (tail s4)"
    by (simp add: s4_def s3_def s2_def s1_def link_simps)
  have "follow ((prev_of s)(a := Some (head s), last (tail s # rev ns) := Some a)) (tail s)
          (rev ns @ [a]) (head s)"
    using assms(2) dist by (intro follow_snoc [OF bw]) auto
  then have bw': "follow (prev_of s4) (tail s4) (rev (a # ns)) (head s4)"
    by (simp add: s4_def s3_def s2_def s1_def link_simps last_rev_hd del: last.simps)
  have "ledger s4 (a # ns)"
    using fw' bw' dist assms(2) by (simp add: ledger_def) (simp add: s4_def s3_def s2_def s1_def link_simps)
  moreover have "same_nodes s s4"
    unfolding s4_def s3_def s2_def s1_def
    by (simp add: same_nodes_def set_nxt_def set_prev_def)
  moreover have "cache s4 = cache s" by (simp add: s4_def s3_def s2_def s1_def link_simps)
  ultimately show ?thesis using run by blast
qed

subsection \<open>The invariant under the list operations\<close>

lemma ledger_cache_upd [simp]: "ledger (s\<lparr>cache := c\<rparr>) ns = ledger s ns"
proof -
  have "nxt_of (s\<lparr>cache := c\<rparr>) = nxt_of s" "prev_of (s\<lparr>cache := c\<rparr>) = prev_of s"
    by (simp_all add: fun_eq_iff nxt_of_def prev_of_def)
  then show ?thesis by (simp add: ledger_def)
qed

lemma same_nodes_cache_upd: "same_nodes s s' \<Longrightarrow> same_nodes s (s'\<lparr>cache := c\<rparr>)"
  by (simp add: same_nodes_def)

lemma ledger_distinct: "ledger s ns \<Longrightarrow> distinct ns"
  by (simp add: ledger_def)

lemma index_ok_set: "set ns' = set ns \<Longrightarrow> index_ok s ns' = index_ok s ns"
  by (simp add: index_ok_def)

lemma index_ok_same:
  "same_nodes s s' \<Longrightarrow> cache s' = cache s \<Longrightarrow> index_ok s' ns = index_ok s ns"
  by (simp add: index_ok_def same_nodes_def)

lemma index_ok_length: "index_ok s ns \<Longrightarrow> distinct ns \<Longrightarrow> length (cache s) = length ns"
proof -
  assume a: "index_ok s ns" and d: "distinct ns"
  from a have "card (set (map snd (cache s))) = length (map snd (cache s))"
    by (intro distinct_card) (simp add: index_ok_def)
  moreover from a have "set (map snd (cache s)) = set ns" by (simp add: index_ok_def)
  ultimately show ?thesis using distinct_card [OF d] by simp
qed

lemma index_ok_lookup:
  "index_ok s ns \<Longrightarrow> map_of (cache s) k = Some a \<Longrightarrow>
   a \<in> set ns \<and> key (heap s a) = k \<and> (k, a) \<in> set (cache s)"
  by (force simp: index_ok_def list_all_iff dest: map_of_SomeD)

lemma index_ok_present:
  "index_ok s ns \<Longrightarrow> (k, a) \<in> set (cache s) \<Longrightarrow> map_of (cache s) k = Some a"
  by (simp add: index_ok_def)

lemma snd_delete:
  assumes "distinct (map fst c)" and "distinct (map snd c)" and "(k, a) \<in> set c"
  shows "snd ` set (AList.delete k c) = snd ` set c - {a}"
proof -
  have inj: "inj_on fst (set c)" "inj_on snd (set c)"
    using assms by (simp_all add: distinct_map)
  show ?thesis
  proof (intro set_eqI iffI)
    fix x assume "x \<in> snd ` set (AList.delete k c)"
    then obtain k' where m: "(k', x) \<in> set c" and ne: "k' \<noteq> k"
      by (auto simp: AList.delete_eq)
    have "x \<noteq> a"
    proof
      assume "x = a"
      with m assms(3) inj_onD [OF inj(2), of "(k', x)" "(k, a)"] have "(k', x) = (k, a)" by simp
      with ne show False by simp
    qed
    with m show "x \<in> snd ` set c - {a}" by force
  next
    fix x assume "x \<in> snd ` set c - {a}"
    then obtain k' where m: "(k', x) \<in> set c" and ne: "x \<noteq> a" by auto
    have "k' \<noteq> k"
    proof
      assume "k' = k"
      with m assms(3) inj_onD [OF inj(1), of "(k', x)" "(k, a)"] have "(k', x) = (k, a)" by simp
      with ne show False by simp
    qed
    with m show "x \<in> snd ` set (AList.delete k c)" by (force simp: AList.delete_eq)
  qed
qed

lemma index_ok_delete:
  assumes "index_ok s ns" and "distinct ns" and "map_of (cache s) k = Some a"
    and "cache s' = AList.delete k (cache s)" and "same_nodes s s'"
  shows "index_ok s' (remove1 a ns)"
proof -
  from assms(1,3) have m: "(k, a) \<in> set (cache s)" by (simp add: index_ok_lookup)
  from assms(1) have d: "distinct (map fst (cache s))" "distinct (map snd (cache s))"
    and s: "snd ` set (cache s) = set ns"
    and l: "list_all (\<lambda>(k, a). key (heap s a) = k) (cache s)"
    by (simp_all add: index_ok_def)
  have "distinct (map fst (cache s'))" using d(1) assms(4) by (simp add: distinct_delete)
  moreover have "distinct (map snd (cache s'))"
    using d(2) assms(4) by (simp add: AList.delete_eq distinct_map_filter)
  moreover have "set (map snd (cache s')) = set (remove1 a ns)"
    using snd_delete [OF d m] s assms(2,4) by simp
  moreover have "list_all (\<lambda>(k, a). key (heap s' a) = k) (cache s')"
    using l assms(4,5) by (auto simp: list_all_iff AList.delete_eq same_nodes_def)
  ultimately show ?thesis by (simp add: index_ok_def)
qed

lemma remove1_split: "a \<in> set ns \<Longrightarrow> \<exists>xs ys. ns = xs @ a # ys \<and> remove1 a ns = xs @ ys"
proof -
  assume "a \<in> set ns"
  then obtain xs ys where "ns = xs @ a # ys" and "a \<notin> set xs"
    by (auto dest: split_list_first)
  then show ?thesis by (auto simp: remove1_append)
qed

lemma cache_inv_fresh:
  "cache_inv s ns \<Longrightarrow> head s < fresh s \<and> tail s < fresh s \<and> (\<forall>a\<in>set ns. a < fresh s)"
  by (auto simp: cache_inv_def list_all_iff)

lemma cache_invI:
  "0 < capacity s \<Longrightarrow> ledger s ns \<Longrightarrow> index_ok s ns \<Longrightarrow> head s < fresh s \<Longrightarrow>
   tail s < fresh s \<Longrightarrow> (\<forall>a\<in>set ns. a < fresh s) \<Longrightarrow> cache_inv s ns"
  by (auto simp: cache_inv_def list_all_iff)

lemma cache_inv_length: "cache_inv s ns \<Longrightarrow> length (cache s) = length ns"
  using index_ok_length [of s ns] ledger_distinct [of s ns] by (simp add: cache_inv_def)

lemma drop_node:
  assumes "cache_inv s ns" and "map_of (cache s) k = Some a"
  shows "\<exists>s1 s'. remove_node a s = (Inr (), s1) \<and> del_cache k s1 = (Inr (), s') \<and>
           cache_inv s' (remove1 a ns) \<and> same_nodes s s' \<and>
           cache s' = AList.delete k (cache s)"
proof -
  from assms have led: "ledger s ns" and idx: "index_ok s ns" and cap: "0 < capacity s"
    by (simp_all add: cache_inv_def)
  from idx assms(2) have ans: "a \<in> set ns" by (simp add: index_ok_lookup)
  obtain xs ys where ns: "ns = xs @ a # ys" and rm: "remove1 a ns = xs @ ys"
    using remove1_split [OF ans] by blast
  from remove_node_ledger [of s xs a ys] led ns
  obtain s1 where r: "remove_node a s = (Inr (), s1)" and l1: "ledger s1 (remove1 a ns)"
    and sn: "same_nodes s s1" and c1: "cache s1 = cache s"
    using rm by auto
  define s' where "s' = s1\<lparr>cache := AList.delete k (cache s1)\<rparr>"
  have d: "del_cache k s1 = (Inr (), s')"
    using assms(2) c1 by (simp add: del_cache_def s'_def)
  have sn': "same_nodes s s'" using sn by (simp add: s'_def same_nodes_cache_upd)
  have c': "cache s' = AList.delete k (cache s)" by (simp add: s'_def c1)
  have "index_ok s' (remove1 a ns)"
    using idx ledger_distinct [OF led] assms(2) c' sn' by (rule index_ok_delete)
  moreover have "ledger s' (remove1 a ns)" using l1 by (simp add: s'_def)
  moreover have "head s' < fresh s'" "tail s' < fresh s'" "\<forall>b\<in>set (remove1 a ns). b < fresh s'"
    using cache_inv_fresh [OF assms(1)] sn' by (auto simp: same_nodes_def dest: notin_set_remove1)
  moreover have "0 < capacity s'" using cap sn' by (simp add: same_nodes_def)
  ultimately have "cache_inv s' (remove1 a ns)" by (intro cache_invI)
  with r d sn' c' show ?thesis by blast
qed

lemma move_to_head_inv:
  assumes "cache_inv s ns" and "a \<in> set ns"
  shows "\<exists>s'. move_to_head a s = (Inr (), s') \<and> cache_inv s' (a # remove1 a ns) \<and>
           same_nodes s s' \<and> cache s' = cache s"
proof -
  from assms have led: "ledger s ns" and idx: "index_ok s ns" and cap: "0 < capacity s"
    by (simp_all add: cache_inv_def)
  obtain xs ys where ns: "ns = xs @ a # ys" and rm: "remove1 a ns = xs @ ys"
    using remove1_split [OF assms(2)] by blast
  from remove_node_ledger [of s xs a ys] led ns
  obtain s1 where r: "remove_node a s = (Inr (), s1)" and l1: "ledger s1 (remove1 a ns)"
    and sn: "same_nodes s s1" and c1: "cache s1 = cache s"
    using rm by auto
  have "a \<notin> set (head s1 # remove1 a ns @ [tail s1])"
    using led sn by (auto simp: ledger_def ns rm same_nodes_def)
  from add_to_head_ledger [OF l1 this]
  obtain s' where ad: "add_to_head a s1 = (Inr (), s')" and l': "ledger s' (a # remove1 a ns)"
    and sn1: "same_nodes s1 s'" and c': "cache s' = cache s1"
    by blast
  have sn': "same_nodes s s'" using sn sn1 by (rule same_nodes_trans)
  have st: "set (a # remove1 a ns) = set ns" using assms(2) ledger_distinct [OF led] by auto
  have "index_ok s' (a # remove1 a ns)"
    using idx sn' c' c1 by (simp add: index_ok_set [OF st] index_ok_same)
  moreover have "head s' < fresh s'" "tail s' < fresh s'" "\<forall>b\<in>set (a # remove1 a ns). b < fresh s'"
    using cache_inv_fresh [OF assms(1)] sn' unfolding st by (auto simp: same_nodes_def)
  moreover have "0 < capacity s'" using cap sn' by (simp add: same_nodes_def)
  ultimately have "cache_inv s' (a # remove1 a ns)" using l' by (intro cache_invI)
  moreover have "move_to_head a s = (Inr (), s')" using r ad by (simp add: move_to_head_def bind_def)
  ultimately show ?thesis using sn' c' c1 by auto
qed

subsection \<open>The dictionary\<close>

lemma update_new: "map_of c k = None \<Longrightarrow> AList.update k v c = c @ [(k, v)]"
  by (induction c) (auto split: if_splits)

lemma map_of_keep:
  "map_of (filter (\<lambda>e. fst e \<notin> K) c) k = (if k \<in> K then None else map_of c k)"
  by (induction c) auto

lemma filter_remove1_other: "\<not> P a \<Longrightarrow> filter P (remove1 a ns) = filter P ns"
  by (induction ns) auto

lemma remove1_last: "distinct ns \<Longrightarrow> ns \<noteq> [] \<Longrightarrow> remove1 (last ns) ns = butlast ns"
  by (induction ns) (auto simp: remove1_idem)

lemma keys_delete: "fst ` set (AList.delete k c) = fst ` set c - {k}"
  by (force simp: AList.delete_eq)

lemma present_lookup: "k \<in> fst ` set c \<Longrightarrow> \<exists>a. map_of c k = Some a"
  by (cases "map_of c k") (auto simp: map_of_eq_None_iff)

lemma entry_same: "same_nodes s s' \<Longrightarrow> cache s' = cache s \<Longrightarrow> entry s' k = entry s k"
  by (simp add: entry_def same_nodes_def)

lemma entry_keep:
  "same_nodes s s' \<Longrightarrow> cache s' = filter (\<lambda>e. fst e \<notin> K) (cache s) \<Longrightarrow>
   entry s' k = (if k \<in> K then None else entry s k)"
  by (simp add: entry_def same_nodes_def map_of_keep)

lemma entry_delete:
  "same_nodes s s' \<Longrightarrow> cache s' = AList.delete k (cache s) \<Longrightarrow>
   entry s' k' = (if k' = k then None else entry s k')"
  by (simp add: entry_def same_nodes_def AList.delete_conv)

subsection \<open>The sweep\<close>

lemma expired_keys_iff:
  "k \<in> set (expired_keys clk s) \<longleftrightarrow>
   (\<exists>i<length (cache s). fst (cache s ! i) = k \<and>
      is_expired (clk i) (heap s (snd (cache s ! i))))"
proof
  assume "k \<in> set (expired_keys clk s)"
  then obtain i a where "(i, k, a) \<in> set (enumerate 0 (cache s))"
    and "is_expired (clk i) (heap s a)"
    by (auto simp: expired_keys_def)
  then have "i < length (cache s)" and "cache s ! i = (k, a)" and "is_expired (clk i) (heap s a)"
    by (simp_all add: in_set_enumerate_eq)
  then show "\<exists>i<length (cache s). fst (cache s ! i) = k \<and>
      is_expired (clk i) (heap s (snd (cache s ! i)))"
    by auto
next
  assume "\<exists>i<length (cache s). fst (cache s ! i) = k \<and>
      is_expired (clk i) (heap s (snd (cache s ! i)))"
  then obtain i where i: "i < length (cache s)" and k: "fst (cache s ! i) = k"
    and e: "is_expired (clk i) (heap s (snd (cache s ! i)))"
    by blast
  from i have "(i, k, snd (cache s ! i)) \<in> set (enumerate 0 (cache s))"
    by (simp add: in_set_enumerate_eq k [symmetric])
  with e have "(i, k, snd (cache s ! i)) \<in>
      set (filter (\<lambda>(i, k, a). is_expired (clk i) (heap s a)) (enumerate 0 (cache s)))"
    by simp
  then have "(\<lambda>(i, k, a). k) (i, k, snd (cache s ! i)) \<in> set (expired_keys clk s)"
    unfolding expired_keys_def set_map by (rule imageI)
  then show "k \<in> set (expired_keys clk s)" by simp
qed

lemma expired_keys_present: "set (expired_keys clk s) \<subseteq> fst ` set (cache s)"
  by (auto simp: expired_keys_iff)

lemma expired_keys_distinct:
  assumes "distinct (map fst (cache s))"
  shows "distinct (expired_keys clk s)"
proof -
  have "(\<lambda>(i :: nat, k :: 'a option, a :: addr). k) = fst \<circ> snd" by auto
  then have "map (\<lambda>(i, k, a). k) (enumerate 0 (cache s)) = map fst (map snd (enumerate 0 (cache s)))"
    by (simp only: map_map)
  then have "distinct (map (\<lambda>(i, k, a). k) (enumerate 0 (cache s)))"
    using assms by (simp only: map_snd_enumerate)
  then show ?thesis unfolding expired_keys_def by (rule distinct_map_filter)
qed

lemma remove_keys_inv:
  assumes "cache_inv s ns" and "distinct ks" and "set ks \<subseteq> fst ` set (cache s)"
  shows "\<exists>s'. remove_keys ks s = (Inr (), s') \<and>
           cache s' = filter (\<lambda>e. fst e \<notin> set ks) (cache s) \<and>
           cache_inv s' (filter (\<lambda>a. a \<in> snd ` set (cache s')) ns) \<and> same_nodes s s'"
  using assms
proof (induction ks arbitrary: s ns)
  case Nil
  from Nil.prems(1) have "set (map snd (cache s)) = set ns"
    by (simp add: cache_inv_def index_ok_def)
  then have "filter (\<lambda>a. a \<in> snd ` set (cache s)) ns = ns" by simp
  with Nil.prems(1) show ?case by (simp add: same_nodes_refl)
next
  case (Cons k ks)
  from Cons.prems(3) obtain a where m: "map_of (cache s) k = Some a"
    using present_lookup [of k "cache s"] by auto
  from drop_node [OF Cons.prems(1) m]
  obtain s1 s2 where r: "remove_node a s = (Inr (), s1)" and d: "del_cache k s1 = (Inr (), s2)"
    and inv2: "cache_inv s2 (remove1 a ns)" and sn2: "same_nodes s s2"
    and c2: "cache s2 = AList.delete k (cache s)"
    by blast
  have "set ks \<subseteq> fst ` set (cache s2)"
    using Cons.prems(2,3) by (auto simp: c2 keys_delete)
  from Cons.IH [OF inv2 _ this] Cons.prems(2)
  obtain s' where rk: "remove_keys ks s2 = (Inr (), s')"
    and c': "cache s' = filter (\<lambda>e. fst e \<notin> set ks) (cache s2)"
    and inv': "cache_inv s' (filter (\<lambda>b. b \<in> snd ` set (cache s')) (remove1 a ns))"
    and sn': "same_nodes s2 s'"
    by auto
  have dn: "distinct ns" using Cons.prems(1) ledger_distinct [of s ns] by (simp add: cache_inv_def)
  have "snd ` set (cache s2) = set (remove1 a ns)"
    using inv2 by (simp add: cache_inv_def index_ok_def)
  then have "a \<notin> snd ` set (cache s2)" using dn by simp
  then have "a \<notin> snd ` set (cache s')" unfolding c' by auto
  then have "filter (\<lambda>b. b \<in> snd ` set (cache s')) (remove1 a ns) =
             filter (\<lambda>b. b \<in> snd ` set (cache s')) ns"
    by (rule filter_remove1_other)
  with inv' have "cache_inv s' (filter (\<lambda>b. b \<in> snd ` set (cache s')) ns)" by simp
  moreover have "cache s' = filter (\<lambda>e. fst e \<notin> set (k # ks)) (cache s)"
    unfolding c' c2 by (auto simp: AList.delete_eq intro: filter_cong)
  moreover have "remove_keys (k # ks) s = (Inr (), s')"
    using m r d rk by (simp add: bind_def)
  moreover have "same_nodes s s'" using sn2 sn' by (rule same_nodes_trans)
  ultimately show ?case by blast
qed

lemma expired_keys_same:
  "same_nodes s s' \<Longrightarrow> cache s' = cache s \<Longrightarrow> expired_keys clk s' = expired_keys clk s"
  by (simp add: expired_keys_def is_expired_def same_nodes_def)

lemma cleanup_expired_inv:
  assumes "cache_inv s ns"
  shows "\<exists>s'. cleanup_expired clk s = (Inr (), s') \<and>
           cache s' = filter (\<lambda>e. fst e \<notin> set (expired_keys clk s)) (cache s) \<and>
           cache_inv s' (filter (\<lambda>a. a \<in> snd ` set (cache s')) ns) \<and> same_nodes s s'"
proof -
  from assms have "distinct (map fst (cache s))" by (simp add: cache_inv_def index_ok_def)
  then have "distinct (expired_keys clk s)" by (rule expired_keys_distinct)
  from remove_keys_inv [OF assms this expired_keys_present]
  show ?thesis by (simp add: cleanup_expired_def)
qed

subsection \<open>Eviction and insertion\<close>

lemma evict_lru:
  assumes "cache_inv s ns" and "capacity s \<le> int (length (cache s))"
  shows "ns \<noteq> [] \<and>
         (\<exists>s1 s'. remove_tail s = (Inr (last ns), s1) \<and>
            map_of (cache s1) (key (heap s1 (last ns))) = Some (last ns) \<and>
            del_cache (key (heap s1 (last ns))) s1 = (Inr (), s') \<and>
            cache_inv s' (butlast ns) \<and> same_nodes s s' \<and>
            cache s' = AList.delete (key (heap s (last ns))) (cache s))"
proof -
  from assms have led: "ledger s ns" and idx: "index_ok s ns" and cap: "0 < capacity s"
    by (simp_all add: cache_inv_def)
  have ne: "ns \<noteq> []" using assms cap cache_inv_length [OF assms(1)] by auto
  let ?l = "last ns"
  from led have "follow (prev_of s) (tail s) (rev ns) (head s)" by (simp add: ledger_def)
  from follow_first [OF this] have p: "prev (heap s (tail s)) = Some ?l"
    using ne by (simp add: hd_rev_last prev_of_def)
  have "?l \<in> snd ` set (cache s)" using idx ne by (simp add: index_ok_def)
  then obtain k where "(k, ?l) \<in> set (cache s)" by force
  with idx have m: "map_of (cache s) k = Some ?l" by (simp add: index_ok_present)
  with idx have k: "key (heap s ?l) = k" by (simp add: index_ok_lookup)
  from drop_node [OF assms(1) m]
  obtain s1 s' where r: "remove_node ?l s = (Inr (), s1)" and d: "del_cache k s1 = (Inr (), s')"
    and inv': "cache_inv s' (remove1 ?l ns)" and sn': "same_nodes s s'"
    and c': "cache s' = AList.delete k (cache s)"
    by blast
  from remove_node_ledger [of s "butlast ns" ?l "[]"] led ne r
  have sn1: "same_nodes s s1" and c1: "cache s1 = cache s" by auto
  have k1: "key (heap s1 ?l) = k" using k sn1 by (simp add: same_nodes_def)
  have "remove_tail s = (Inr ?l, s1)" using p r by (simp add: remove_tail_def bind_def)
  moreover have "cache_inv s' (butlast ns)"
    using inv' remove1_last [OF ledger_distinct [OF led] ne] by simp
  ultimately show ?thesis using ne m d sn' c' k k1 c1 by auto
qed

lemma insert_node:
  assumes "cache_inv s ns" and "map_of (cache s) k = None" and "key (heap s a) = k"
    and "a \<notin> set (head s # ns @ [tail s])" and "a < fresh s"
  shows "\<exists>s'. add_to_head a (set_cache k a s) = (Inr (), s') \<and> cache_inv s' (a # ns) \<and>
           same_nodes s s' \<and> cache s' = cache s @ [(k, a)]"
proof -
  from assms have led: "ledger s ns" and idx: "index_ok s ns" and cap: "0 < capacity s"
    by (simp_all add: cache_inv_def)
  define s0 where "s0 = set_cache k a s"
  have c0: "cache s0 = cache s @ [(k, a)]"
    using assms(2) by (simp add: s0_def set_cache_def update_new)
  have f0: "head s0 = head s" "tail s0 = tail s" "heap s0 = heap s" "fresh s0 = fresh s"
    "capacity s0 = capacity s"
    by (simp_all add: s0_def set_cache_def)
  have l0: "ledger s0 ns" using led by (simp add: s0_def set_cache_def)
  from add_to_head_ledger [OF l0] assms(4) f0
  obtain s' where ad: "add_to_head a s0 = (Inr (), s')" and l': "ledger s' (a # ns)"
    and sn: "same_nodes s0 s'" and c': "cache s' = cache s0"
    by auto
  have sn': "same_nodes s s'" using sn f0 by (simp add: same_nodes_def)
  have kn: "k \<notin> fst ` set (cache s)" using assms(2) by (simp add: map_of_eq_None_iff)
  have an: "a \<notin> snd ` set (cache s)" using idx assms(4) by (simp add: index_ok_def)
  have "index_ok s' (a # ns)"
    using idx kn an assms(3) sn' by (simp add: index_ok_def c' c0 same_nodes_def)
  moreover have "head s' < fresh s'" "tail s' < fresh s'" "\<forall>b\<in>set (a # ns). b < fresh s'"
    using cache_inv_fresh [OF assms(1)] sn' assms(5) by (auto simp: same_nodes_def)
  moreover have "0 < capacity s'" using cap sn' by (simp add: same_nodes_def)
  ultimately have "cache_inv s' (a # ns)" using l' by (intro cache_invI)
  with ad sn' c' c0 show ?thesis unfolding s0_def by auto
qed

lemma Node_inv:
  assumes "cache_inv s ns"
  shows "cache_inv (snd (Node k v e s)) ns"
proof -
  define s1 where "s1 = snd (Node k v e s)"
  let ?a = "fresh s"
  from assms have led: "ledger s ns" and idx: "index_ok s ns" and cap: "0 < capacity s"
    by (simp_all add: cache_inv_def)
  note fr = cache_inv_fresh [OF assms]
  have f1: "head s1 = head s" "tail s1 = tail s" "cache s1 = cache s" "fresh s1 = Suc (fresh s)"
    "capacity s1 = capacity s"
    by (simp_all add: s1_def Node_def)
  have n1: "nxt_of s1 = (nxt_of s)(?a := None)" "prev_of s1 = (prev_of s)(?a := None)"
    by (auto simp: s1_def Node_def nxt_of_def prev_of_def)
  have "?a \<notin> set (head s # ns)" "?a \<notin> set (tail s # rev ns)" using fr by auto
  then have "ledger s1 ns"
    using led by (simp add: ledger_def f1 n1 follow_upd_other del: fun_upd_apply)
  moreover have "index_ok s1 ns"
  proof -
    have "heap s1 b = heap s b" if "(k', b) \<in> set (cache s)" for k' b
    proof -
      from that have "b \<in> snd ` set (cache s)" by force
      with idx have "b \<in> set ns" by (simp add: index_ok_def)
      with fr have "b \<noteq> fresh s" by auto
      then show ?thesis by (simp add: s1_def Node_def)
    qed
    then show ?thesis using idx by (auto simp: index_ok_def f1 list_all_iff)
  qed
  ultimately have "cache_inv s1 ns" using cap fr by (intro cache_invI) (auto simp: f1)
  then show ?thesis by (simp add: s1_def)
qed

subsection \<open>The methods on states that satisfy the invariant\<close>

lemma cache_inv_distinct: "cache_inv s ns \<Longrightarrow> distinct ns"
  using ledger_distinct [of s ns] by (simp add: cache_inv_def)

lemma cache_inv_lookup:
  "cache_inv s ns \<Longrightarrow> map_of (cache s) k = Some a \<Longrightarrow> a \<in> set ns \<and> key (heap s a) = k"
  using index_ok_lookup [of s ns k a] by (simp add: cache_inv_def)

lemma new_lru_fields:
  "capacity (new_lru cap) = cap" "cache (new_lru cap) = []" "head (new_lru cap) = 0"
  "tail (new_lru cap) = Suc 0" "fresh (new_lru cap) = Suc (Suc 0)"
  by (simp_all add: new_lru_def Node_def set_nxt_def set_prev_def Let_def)

lemma new_lru_inv: "0 < cap \<Longrightarrow> cache_inv (new_lru cap) []"
  by (simp add: cache_inv_def ledger_def index_ok_def nxt_of_def prev_of_def new_lru_def
      Node_def set_nxt_def set_prev_def Let_def)

lemma clear_fields:
  "fst (clear s) = Inr ()" "cache (snd (clear s)) = []" "head (snd (clear s)) = head s"
  "tail (snd (clear s)) = tail s" "capacity (snd (clear s)) = capacity s"
  "fresh (snd (clear s)) = fresh s"
  "nxt_of (snd (clear s)) (head s) = Some (tail s)"
  "prev_of (snd (clear s)) (tail s) = Some (head s)"
  by (simp_all add: clear_def set_nxt_def set_prev_def Let_def nxt_of_def prev_of_def)

lemma clear_ledger: "head s \<noteq> tail s \<Longrightarrow> ledger (snd (clear s)) []"
  by (simp add: ledger_def clear_fields)

lemma clear_inv:
  assumes "cache_inv s ns"
  shows "cache_inv (snd (clear s)) []"
proof -
  from assms have "head s \<noteq> tail s" by (simp add: cache_inv_def ledger_def)
  then have "ledger (snd (clear s)) []" by (rule clear_ledger)
  moreover have "index_ok (snd (clear s)) []" by (simp add: index_ok_def clear_fields)
  ultimately show ?thesis
    using assms cache_inv_fresh [OF assms] by (intro cache_invI) (simp_all add: clear_fields cache_inv_def)
qed

lemma entry_eq_same: "same_nodes s s' \<Longrightarrow> cache s' = cache s \<Longrightarrow> entry s' = entry s"
  by (rule ext) (rule entry_same)

lemma entry_eq_delete:
  "same_nodes s s' \<Longrightarrow> cache s' = AList.delete k (cache s) \<Longrightarrow> entry s' = (entry s)(k := None)"
  by (rule ext) (simp add: entry_delete)

lemma entry_eq_keep:
  "same_nodes s s' \<Longrightarrow> cache s' = filter (\<lambda>e. fst e \<notin> K) (cache s) \<Longrightarrow>
   entry s' = entry s |` (- K)"
  by (rule ext) (simp add: entry_keep restrict_map_def)

lemma entry_eq_insert:
  assumes "same_nodes s s'" and "cache s' = cache s @ [(k, a)]" and "map_of (cache s) k = None"
  shows "entry s' = (entry s)(k \<mapsto> (val (heap s a), expire_time (heap s a)))"
proof
  fix k'
  show "entry s' k' = ((entry s)(k \<mapsto> (val (heap s a), expire_time (heap s a)))) k'"
    using assms by (cases "map_of (cache s) k'") (auto simp: entry_def same_nodes_def map_add_def)
qed

lemma entry_eq_Node:
  assumes "cache_inv s ns"
  shows "entry (snd (Node k v e s)) = entry s"
proof
  fix k'
  show "entry (snd (Node k v e s)) k' = entry s k'"
  proof (cases "map_of (cache s) k'")
    case None
    then show ?thesis by (simp add: entry_def Node_def)
  next
    case (Some b)
    with assms have "b \<in> set ns" by (simp add: cache_inv_lookup)
    with cache_inv_fresh [OF assms] have "b \<noteq> fresh s" by auto
    with Some show ?thesis by (simp add: entry_def Node_def)
  qed
qed

lemma entry_eq_update:
  assumes "index_ok s ns" and "map_of (cache s) k = Some a"
  shows "entry (s\<lparr>heap := (heap s)(a := (heap s a)\<lparr>val := v, expire_time := e\<rparr>)\<rparr>) =
         (entry s)(k \<mapsto> (v, e))"
proof
  fix k'
  let ?s = "s\<lparr>heap := (heap s)(a := (heap s a)\<lparr>val := v, expire_time := e\<rparr>)\<rparr>"
  show "entry ?s k' = ((entry s)(k \<mapsto> (v, e))) k'"
  proof (cases "map_of (cache s) k'")
    case None
    with assms(2) have "k' \<noteq> k" by auto
    with None show ?thesis by (simp add: entry_def)
  next
    case (Some b)
    show ?thesis
    proof (cases "k' = k")
      case True
      with Some assms(2) have "b = a" by simp
      with Some True show ?thesis by (simp add: entry_def)
    next
      case False
      have "key (heap s b) = k'" "key (heap s a) = k"
        using index_ok_lookup [OF assms(1) Some] index_ok_lookup [OF assms] by simp_all
      with False have "b \<noteq> a" by auto
      with Some False show ?thesis by (simp add: entry_def)
    qed
  qed
qed

lemma get_miss: "map_of (cache s) k = None \<Longrightarrow> get now k s = (Inr None, s)"
  by (simp add: get_def)

lemma get_stale:
  assumes "cache_inv s ns" and "map_of (cache s) k = Some a" and "expire_time (heap s a) \<le> now"
  shows "\<exists>s'. get now k s = (Inr None, s') \<and> cache_inv s' (remove1 a ns) \<and>
           same_nodes s s' \<and> cache s' = AList.delete k (cache s)"
proof -
  from drop_node [OF assms(1,2)]
  obtain s1 s' where "remove_node a s = (Inr (), s1)" and "del_cache k s1 = (Inr (), s')"
    and r: "cache_inv s' (remove1 a ns)" "same_nodes s s'" "cache s' = AList.delete k (cache s)"
    by blast
  then have "get now k s = (Inr None, s')"
    using assms(2,3) by (simp add: get_def is_expired_def bind_def)
  with r show ?thesis by blast
qed

lemma get_hit:
  assumes "cache_inv s ns" and "map_of (cache s) k = Some a" and "now < expire_time (heap s a)"
  shows "\<exists>s'. get now k s = (Inr (val (heap s a)), s') \<and> cache_inv s' (a # remove1 a ns) \<and>
           same_nodes s s' \<and> cache s' = cache s"
proof -
  from assms(1,2) have "a \<in> set ns" by (simp add: cache_inv_lookup)
  from move_to_head_inv [OF assms(1) this]
  obtain s' where m: "move_to_head a s = (Inr (), s')"
    and r: "cache_inv s' (a # remove1 a ns)" "same_nodes s s'" "cache s' = cache s"
    by blast
  from r(2) have "val (heap s' a) = val (heap s a)" by (simp add: same_nodes_def)
  with m have "get now k s = (Inr (val (heap s a)), s')"
    using assms(2,3) by (simp add: get_def is_expired_def bind_def)
  with r show ?thesis by blast
qed

lemma put_invalid:
  "ttl_ms \<le> 0 \<Longrightarrow> put clk k v ttl_ms s = (Inl (ValueError ''TTL must be positive''), s)"
  by (simp add: put_def)

lemma put_update:
  assumes "cache_inv s ns" and "0 < ttl_ms" and "map_of (cache s) k = Some a"
  shows "\<exists>s'. put clk k v ttl_ms s = (Inr (), s') \<and> cache_inv s' (a # remove1 a ns) \<and>
           cache s' = cache s \<and> capacity s' = capacity s \<and> fresh s' = fresh s \<and>
           entry s' = (entry s)(k \<mapsto> (v, clk 0 + real_of_int ttl_ms))"
proof -
  let ?e = "clk 0 + real_of_int ttl_ms"
  define su where "su = s\<lparr>heap := (heap s)(a := (heap s a)\<lparr>val := v, expire_time := ?e\<rparr>)\<rparr>"
  from assms have led: "ledger s ns" and idx: "index_ok s ns" and cap: "0 < capacity s"
    by (simp_all add: cache_inv_def)
  have an: "a \<in> set ns" using idx assms(3) by (simp add: index_ok_lookup)
  have "nxt_of su = nxt_of s" "prev_of su = prev_of s"
    by (auto simp: su_def nxt_of_def prev_of_def)
  then have "ledger su ns" using led by (simp add: ledger_def su_def)
  moreover have "index_ok su ns" using idx by (auto simp: index_ok_def su_def list_all_iff)
  ultimately have "cache_inv su ns"
    using cap cache_inv_fresh [OF assms(1)] by (intro cache_invI) (simp_all add: su_def)
  from move_to_head_inv [OF this an]
  obtain s' where m: "move_to_head a su = (Inr (), s')"
    and r: "cache_inv s' (a # remove1 a ns)" "same_nodes su s'" "cache s' = cache su"
    by blast
  have "put clk k v ttl_ms s = (Inr (), s')"
    using assms(2,3) m by (simp add: put_def su_def Let_def)
  moreover have "entry s' = (entry s)(k \<mapsto> (v, ?e))"
    using entry_eq_same [OF r(2,3)] entry_eq_update [OF idx assms(3)] by (simp add: su_def)
  moreover have "cache s' = cache s" "capacity s' = capacity s" "fresh s' = fresh s"
    using r(2,3) by (simp_all add: su_def same_nodes_def)
  ultimately show ?thesis using r(1) by blast
qed

subsection \<open>Making room and inserting\<close>

lemma Node_fields:
  "fst (Node k v e s) = fresh s" "cache (snd (Node k v e s)) = cache s"
  "capacity (snd (Node k v e s)) = capacity s" "head (snd (Node k v e s)) = head s"
  "tail (snd (Node k v e s)) = tail s" "fresh (snd (Node k v e s)) = Suc (fresh s)"
  "key (heap (snd (Node k v e s)) (fresh s)) = k" "val (heap (snd (Node k v e s)) (fresh s)) = v"
  "expire_time (heap (snd (Node k v e s)) (fresh s)) = e"
  "b \<noteq> fresh s \<Longrightarrow> heap (snd (Node k v e s)) b = heap s b"
  by (simp_all add: Node_def)

lemma expired_keys_Node:
  assumes "cache_inv s ns"
  shows "expired_keys clk (snd (Node k v e s)) = expired_keys clk s"
proof -
  have "heap (snd (Node k v e s)) a = heap s a" if "(i, k', a) \<in> set (enumerate 0 (cache s))"
    for i k' a
  proof -
    from that have "i < length (cache s)" and "cache s ! i = (k', a)"
      by (simp_all add: in_set_enumerate_eq)
    then have "(k', a) \<in> set (cache s)" using nth_mem [of i "cache s"] by simp
    then have "a \<in> snd ` set (cache s)" by force
    with assms have "a \<in> set ns" by (simp add: cache_inv_def index_ok_def)
    with cache_inv_fresh [OF assms] have "a \<noteq> fresh s" by auto
    then show ?thesis by (rule Node_fields)
  qed
  then have "filter (\<lambda>(i, k', a). is_expired (clk i) (heap (snd (Node k v e s)) a))
               (enumerate 0 (cache s)) =
             filter (\<lambda>(i, k', a). is_expired (clk i) (heap s a)) (enumerate 0 (cache s))"
    by (intro filter_cong) auto
  then show ?thesis by (simp add: expired_keys_def Node_fields)
qed

lemma make_room_spare:
  "int (length (cache s)) < capacity s \<Longrightarrow> make_room clk s = (Inr (), s)"
  by (simp add: make_room_def)

lemma make_room_sweep:
  assumes "cache_inv s ns" and "capacity s \<le> int (length (cache s))"
    and "int (length (swept clk s)) < capacity s"
  shows "\<exists>s2. make_room clk s = (Inr (), s2) \<and> cache s2 = swept clk s \<and>
           cache_inv s2 (survivors clk s ns) \<and> same_nodes s s2"
proof -
  from cleanup_expired_inv [OF assms(1), of clk]
  obtain s2 where c: "cleanup_expired clk s = (Inr (), s2)" and c2: "cache s2 = swept clk s"
    and inv2: "cache_inv s2 (survivors clk s ns)" and sn2: "same_nodes s s2"
    by (auto simp: swept_def survivors_def)
  have "capacity s2 = capacity s" using sn2 by (simp add: same_nodes_def)
  then have "make_room clk s = (Inr (), s2)"
    using assms(2,3) c c2 by (simp add: make_room_def bind_def)
  with c2 inv2 sn2 show ?thesis by blast
qed

lemma make_room_evict:
  assumes "cache_inv s ns" and "capacity s \<le> int (length (cache s))"
    and "capacity s \<le> int (length (swept clk s))"
  shows "survivors clk s ns \<noteq> [] \<and>
         (\<exists>s2 s3 s4. cleanup_expired clk s = (Inr (), s2) \<and> cache s2 = swept clk s \<and>
            cache_inv s2 (survivors clk s ns) \<and> same_nodes s s2 \<and>
            remove_tail s2 = (Inr (last (survivors clk s ns)), s3) \<and>
            map_of (cache s3) (key (heap s3 (last (survivors clk s ns)))) =
              Some (last (survivors clk s ns)) \<and>
            make_room clk s = (Inr (), s4) \<and>
            cache_inv s4 (butlast (survivors clk s ns)) \<and> same_nodes s s4 \<and>
            cache s4 = AList.delete (key (heap s (last (survivors clk s ns)))) (swept clk s))"
proof -
  let ?ns2 = "survivors clk s ns"
  from cleanup_expired_inv [OF assms(1), of clk]
  obtain s2 where c: "cleanup_expired clk s = (Inr (), s2)" and c2: "cache s2 = swept clk s"
    and inv2: "cache_inv s2 ?ns2" and sn2: "same_nodes s s2"
    by (auto simp: swept_def survivors_def)
  have cap2: "capacity s2 = capacity s" using sn2 by (simp add: same_nodes_def)
  with assms(3) have full: "capacity s2 \<le> int (length (cache s2))" by (simp add: c2)
  from evict_lru [OF inv2 full]
  obtain s3 s4 where ne: "?ns2 \<noteq> []" and rt: "remove_tail s2 = (Inr (last ?ns2), s3)"
    and m3: "map_of (cache s3) (key (heap s3 (last ?ns2))) = Some (last ?ns2)"
    and d: "del_cache (key (heap s3 (last ?ns2))) s3 = (Inr (), s4)"
    and inv4: "cache_inv s4 (butlast ?ns2)" and sn4: "same_nodes s2 s4"
    and c4: "cache s4 = AList.delete (key (heap s2 (last ?ns2))) (cache s2)"
    by blast
  have "make_room clk s = (Inr (), s4)"
    using assms(2) c full rt d by (simp add: make_room_def bind_def)
  moreover have "same_nodes s s4" using sn2 sn4 by (rule same_nodes_trans)
  moreover have "cache s4 = AList.delete (key (heap s (last ?ns2))) (swept clk s)"
    using c4 c2 sn2 by (simp add: same_nodes_def)
  ultimately show ?thesis using c c2 inv2 sn2 ne rt m3 inv4 by blast
qed

lemma put_new_unfold:
  "0 < ttl_ms \<Longrightarrow> map_of (cache s) k = None \<Longrightarrow>
   put clk k v ttl_ms s =
     bind (make_room (\<lambda>i. clk (Suc i)))
       (\<lambda>_ s'. add_to_head (fresh s) (set_cache k (fresh s) s'))
       (snd (Node k v (clk 0 + real_of_int ttl_ms) s))"
  by (simp add: put_def Let_def Node_def)

lemma put_insert:
  assumes "cache_inv s ns" and "0 < ttl_ms" and "map_of (cache s) k = None"
    and "make_room (\<lambda>i. clk (Suc i)) (snd (Node k v (clk 0 + real_of_int ttl_ms) s)) = (Inr (), sr)"
    and "cache_inv sr nr" and "set nr \<subseteq> set ns"
    and "same_nodes (snd (Node k v (clk 0 + real_of_int ttl_ms) s)) sr"
    and "map_of (cache sr) k = None"
  shows "\<exists>s'. put clk k v ttl_ms s = (Inr (), s') \<and> cache_inv s' (fresh s # nr) \<and>
           cache s' = cache sr @ [(k, fresh s)] \<and> capacity s' = capacity s \<and>
           fresh s' = Suc (fresh s) \<and>
           entry s' = (entry sr)(k \<mapsto> (v, clk 0 + real_of_int ttl_ms))"
proof -
  let ?e = "clk 0 + real_of_int ttl_ms" and ?a = "fresh s"
  let ?s1 = "snd (Node k v ?e s)"
  note fr = cache_inv_fresh [OF assms(1)]
  from assms(7) have same: "head sr = head s" "tail sr = tail s" "fresh sr = Suc ?a"
    "capacity sr = capacity s" "key (heap sr ?a) = k" "val (heap sr ?a) = v"
    "expire_time (heap sr ?a) = ?e"
    by (simp_all add: same_nodes_def Node_fields)
  have "?a \<notin> set (head sr # nr @ [tail sr])" using fr assms(6) by (auto simp: same)
  from insert_node [OF assms(5,8) same(5) this] same(3)
  obtain s' where ad: "add_to_head ?a (set_cache k ?a sr) = (Inr (), s')"
    and inv': "cache_inv s' (?a # nr)" and sn': "same_nodes sr s'"
    and c': "cache s' = cache sr @ [(k, ?a)]"
    by auto
  have "put clk k v ttl_ms s = (Inr (), s')"
    using assms(2,3,4) ad by (simp add: put_new_unfold bind_def)
  moreover have "entry s' = (entry sr)(k \<mapsto> (v, ?e))"
    using entry_eq_insert [OF sn' c' assms(8)] by (simp add: same)
  moreover have "capacity s' = capacity s" "fresh s' = Suc ?a"
    using sn' same by (simp_all add: same_nodes_def)
  ultimately show ?thesis using inv' c' by blast
qed

lemma put_room:
  assumes "cache_inv s ns" and "0 < ttl_ms" and "map_of (cache s) k = None"
    and "int (length (cache s)) < capacity s"
  shows "\<exists>s'. put clk k v ttl_ms s = (Inr (), s') \<and> cache_inv s' (fresh s # ns) \<and>
           cache s' = cache s @ [(k, fresh s)] \<and> capacity s' = capacity s \<and>
           fresh s' = Suc (fresh s) \<and>
           entry s' = (entry s)(k \<mapsto> (v, clk 0 + real_of_int ttl_ms))"
proof -
  let ?s1 = "snd (Node k v (clk 0 + real_of_int ttl_ms) s)"
  have "make_room (\<lambda>i. clk (Suc i)) ?s1 = (Inr (), ?s1)"
    using assms(4) by (simp add: make_room_spare Node_fields)
  from put_insert [OF assms(1-3) this Node_inv [OF assms(1)] subset_refl same_nodes_refl]
  show ?thesis using assms(3) by (simp add: Node_fields entry_eq_Node [OF assms(1)])
qed

lemma put_full:
  assumes "cache_inv s ns" and "0 < ttl_ms" and "map_of (cache s) k = None"
    and "capacity s \<le> int (length (cache s))"
  shows "\<exists>s'. put clk k v ttl_ms s = (Inr (), s') \<and> capacity s' = capacity s \<and>
           fresh s' = Suc (fresh s) \<and>
           (let clk' = (\<lambda>i. clk (Suc i)); ns2 = survivors clk' s ns; c2 = swept clk' s;
                e = clk 0 + real_of_int ttl_ms
            in if int (length c2) < capacity s
               then cache s' = c2 @ [(k, fresh s)] \<and> cache_inv s' (fresh s # ns2) \<and>
                    entry s' = (entry s |` (- set (expired_keys clk' s)))(k \<mapsto> (v, e))
               else ns2 \<noteq> [] \<and>
                    cache s' = AList.delete (key (heap s (last ns2))) c2 @ [(k, fresh s)] \<and>
                    cache_inv s' (fresh s # butlast ns2) \<and>
                    entry s' = ((entry s |` (- set (expired_keys clk' s)))
                                 (key (heap s (last ns2)) := None))(k \<mapsto> (v, e)))"
proof -
  let ?clk = "\<lambda>i. clk (Suc i)" and ?e = "clk 0 + real_of_int ttl_ms"
  let ?s1 = "snd (Node k v ?e s)"
  let ?ns2 = "survivors ?clk s ns" and ?c2 = "swept ?clk s"
  have inv1: "cache_inv ?s1 ns" using assms(1) by (rule Node_inv)
  have sw: "swept ?clk ?s1 = ?c2" "survivors ?clk ?s1 ns = ?ns2"
    by (simp_all add: swept_def survivors_def expired_keys_Node [OF assms(1)] Node_fields)
  have full1: "capacity ?s1 \<le> int (length (cache ?s1))" using assms(4) by (simp add: Node_fields)
  have sub: "set ?ns2 \<subseteq> set ns" "set (butlast ?ns2) \<subseteq> set ns"
    by (auto simp: survivors_def dest: in_set_butlastD)
  have nk: "map_of ?c2 k = None" using assms(3) by (simp add: swept_def map_of_keep)
  show ?thesis
  proof (cases "int (length ?c2) < capacity s")
    case True
    then have "int (length (swept ?clk ?s1)) < capacity ?s1" by (simp add: sw Node_fields)
    from make_room_sweep [OF inv1 full1 this]
    obtain s2 where mr: "make_room ?clk ?s1 = (Inr (), s2)" and c2: "cache s2 = ?c2"
      and inv2: "cache_inv s2 ?ns2" and sn2: "same_nodes ?s1 s2"
      unfolding sw by blast
    have e2: "entry s2 = entry s |` (- set (expired_keys ?clk s))"
      using entry_eq_keep [OF sn2, of "set (expired_keys ?clk s)"] c2
      by (simp add: swept_def Node_fields entry_eq_Node [OF assms(1)])
    have nk2: "map_of (cache s2) k = None" using nk by (simp add: c2)
    from put_insert [OF assms(1-3) mr inv2 sub(1) sn2 nk2]
    show ?thesis using True by (auto simp: Let_def e2 c2)
  next
    case False
    then have "capacity ?s1 \<le> int (length (swept ?clk ?s1))" by (simp add: sw Node_fields)
    from make_room_evict [OF inv1 full1 this]
    obtain s2 s4 where ne: "?ns2 \<noteq> []" and c2: "cache s2 = ?c2" and sn2: "same_nodes ?s1 s2"
      and mr: "make_room ?clk ?s1 = (Inr (), s4)"
      and inv4: "cache_inv s4 (butlast ?ns2)" and sn4: "same_nodes ?s1 s4"
      and c4: "cache s4 = AList.delete (key (heap ?s1 (last ?ns2))) ?c2"
      unfolding sw by blast
    have e2: "entry s2 = entry s |` (- set (expired_keys ?clk s))"
      using entry_eq_keep [OF sn2, of "set (expired_keys ?clk s)"] c2
      by (simp add: swept_def Node_fields entry_eq_Node [OF assms(1)])
    have "last ?ns2 \<in> set ns" using ne sub(1) last_in_set by blast
    with cache_inv_fresh [OF assms(1)] have "last ?ns2 \<noteq> fresh s" by auto
    then have kl: "key (heap ?s1 (last ?ns2)) = key (heap s (last ?ns2))"
      by (simp add: Node_fields)
    have nk4: "map_of (cache s4) k = None" using nk by (simp add: c4 AList.delete_conv)
    have "same_nodes s2 s4" using sn2 sn4 by (simp add: same_nodes_def)
    from entry_eq_delete [OF this, of "key (heap s (last ?ns2))"] c4 c2 kl
    have e4: "entry s4 = (entry s |` (- set (expired_keys ?clk s)))(key (heap s (last ?ns2)) := None)"
      by (simp add: e2)
    from put_insert [OF assms(1-3) mr inv4 sub(2) sn4 nk4]
    show ?thesis using False ne by (auto simp: Let_def e4 c4 kl)
  qed
qed

subsection \<open>Every call preserves the invariant\<close>

lemma get_inv:
  assumes "cache_inv s ns"
  shows "\<exists>r s' ns'. get now k s = (Inr r, s') \<and> cache_inv s' ns' \<and> capacity s' = capacity s \<and>
           length (cache s') \<le> length (cache s)"
proof (cases "map_of (cache s) k")
  case None
  with assms show ?thesis by (auto simp: get_miss)
next
  case (Some a)
  show ?thesis
  proof (cases "expire_time (heap s a) \<le> now")
    case True
    from get_stale [OF assms Some True] obtain s' where "get now k s = (Inr None, s')"
      and "cache_inv s' (remove1 a ns)" and "same_nodes s s'"
      and "cache s' = AList.delete k (cache s)"
      by blast
    then show ?thesis by (auto simp: same_nodes_def AList.delete_eq)
  next
    case False
    then have "now < expire_time (heap s a)" by simp
    from get_hit [OF assms Some this] obtain s' where "get now k s = (Inr (val (heap s a)), s')"
      and "cache_inv s' (a # remove1 a ns)" and "same_nodes s s'" and "cache s' = cache s"
      by blast
    then show ?thesis by (auto simp: same_nodes_def)
  qed
qed

lemma put_inv:
  assumes "cache_inv s ns" and "0 < ttl_ms"
  shows "\<exists>s' ns'. put clk k v ttl_ms s = (Inr (), s') \<and> cache_inv s' ns' \<and>
           capacity s' = capacity s \<and>
           (size_lru s \<le> capacity s \<longrightarrow> size_lru s' \<le> capacity s)"
proof (cases "map_of (cache s) k")
  case (Some a)
  from put_update [OF assms Some, of clk v] show ?thesis by (auto simp: size_lru_def)
next
  case None
  show ?thesis
  proof (cases "int (length (cache s)) < capacity s")
    case True
    from put_room [OF assms None True, of clk v] show ?thesis using True by (auto simp: size_lru_def)
  next
    case False
    then have full: "capacity s \<le> int (length (cache s))" by simp
    let ?clk = "\<lambda>i. clk (Suc i)"
    from put_full [OF assms None full, of clk v]
    obtain s' where p: "put clk k v ttl_ms s = (Inr (), s')" and c: "capacity s' = capacity s"
      and r: "if int (length (swept ?clk s)) < capacity s
              then cache s' = swept ?clk s @ [(k, fresh s)] \<and>
                   cache_inv s' (fresh s # survivors ?clk s ns)
              else survivors ?clk s ns \<noteq> [] \<and>
                   cache_inv s' (fresh s # butlast (survivors ?clk s ns))"
      by (auto simp: Let_def split: if_splits)
    show ?thesis
    proof (cases "int (length (swept ?clk s)) < capacity s")
      case True
      with r p c show ?thesis by (auto simp: size_lru_def)
    next
      case False
      with r have ne: "survivors ?clk s ns \<noteq> []"
        and inv': "cache_inv s' (fresh s # butlast (survivors ?clk s ns))"
        by simp_all
      have "length (cache s') = length (survivors ?clk s ns)"
        using cache_inv_length [OF inv'] ne by simp
      also have "\<dots> \<le> length ns" by (simp add: survivors_def)
      also have "\<dots> = length (cache s)" using cache_inv_length [OF assms(1)] by simp
      finally show ?thesis using p c inv' by (auto simp: size_lru_def)
    qed
  qed
qed

lemma step_inv:
  assumes "cache_inv s ns"
  shows "\<exists>ns'. cache_inv (step c s) ns' \<and> capacity (step c s) = capacity s \<and>
           (size_lru s \<le> capacity s \<longrightarrow> size_lru (step c s) \<le> capacity s)"
proof (cases c)
  case (Get now k)
  from get_inv [OF assms, of now k] show ?thesis unfolding Get by (fastforce simp: size_lru_def)
next
  case (Put clk k v ttl_ms)
  show ?thesis
  proof (cases "0 < ttl_ms")
    case True
    from put_inv [OF assms True, of clk k v] show ?thesis unfolding Put by fastforce
  next
    case False
    with assms show ?thesis unfolding Put by (auto simp: put_invalid)
  qed
next
  case Clear
  from clear_inv [OF assms] assms show ?thesis
    unfolding Clear by (auto simp: clear_fields size_lru_def cache_inv_def)
qed

lemma run_inv:
  assumes "cache_inv s ns" and "size_lru s \<le> capacity s"
  shows "\<exists>ns'. cache_inv (run cs s) ns' \<and> capacity (run cs s) = capacity s \<and>
           size_lru (run cs s) \<le> capacity s"
  using assms
proof (induction cs arbitrary: s ns)
  case Nil
  then show ?case by (auto simp: run_def)
next
  case (Cons c cs)
  from step_inv [OF Cons.prems(1), of c] Cons.prems(2)
  obtain ns1 where "cache_inv (step c s) ns1" and c1: "capacity (step c s) = capacity s"
    and "size_lru (step c s) \<le> capacity (step c s)"
    by auto
  from Cons.IH [OF this(1,3)] c1 show ?case by (simp add: run_def)
qed

lemma init_run_inv:
  assumes "init cap = Inr s0"
  shows "\<exists>ns. cache_inv (run cs s0) ns \<and> capacity (run cs s0) = cap \<and>
           size_lru (run cs s0) \<le> cap"
proof -
  from assms have s0: "s0 = new_lru cap" and cap: "0 < cap"
    by (simp_all add: init_def split: if_splits)
  from run_inv [OF new_lru_inv [OF cap], of cs] cap
  show ?thesis by (simp add: s0 new_lru_fields size_lru_def)
qed


text \<open>The equations that evaluate a run on a concrete cache.\<close>

lemmas run_defs = run_def init_def new_lru_def Node_def set_nxt_def set_prev_def put_def get_def clear_def
  bind_def move_to_head_def remove_node_def add_to_head_def make_room_def
  remove_tail_def cleanup_expired_def expired_keys_def del_cache_def set_cache_def is_expired_def
  enumerate_eq_zip Let_def size_lru_def upt_rec cache_inv_def ledger_def index_ok_def nxt_of_def
  prev_of_def entry_def swept_def survivors_def eval_nat_numeral insert_commute


subsection \<open>The example caches and the keys of the ledger\<close>

lemma small_cache_inv: "cache_inv small_cache [3, 2]"
  by (simp add: small_cache_def run_defs)

lemma mixed_cache_inv: "cache_inv mixed_cache [4, 3, 2]"
  by (simp add: mixed_cache_def run_defs)

lemma inv_keys:
  assumes "cache_inv s ns"
  shows "set (map fst (cache s)) = set (map (\<lambda>a. key (heap s a)) ns) \<and>
         distinct (map (\<lambda>a. key (heap s a)) ns)"
proof -
  from assms have idx: "index_ok s ns" and dn: "distinct ns"
    by (simp_all add: cache_inv_def cache_inv_distinct [OF assms])
  from idx have keys: "\<And>e. e \<in> set (cache s) \<Longrightarrow> key (heap s (snd e)) = fst e"
    and sn: "snd ` set (cache s) = set ns" and df: "distinct (map fst (cache s))"
    by (auto simp: index_ok_def list_all_iff)
  have "(\<lambda>a. key (heap s a)) ` set ns = fst ` set (cache s)"
    unfolding sn [symmetric] using keys by (force simp: image_iff)
  moreover have "inj_on (\<lambda>a. key (heap s a)) (set ns)"
  proof (rule inj_onI)
    fix a b assume "a \<in> set ns" "b \<in> set ns" and eq: "key (heap s a) = key (heap s b)"
    then obtain e1 e2 where e: "e1 \<in> set (cache s)" "e2 \<in> set (cache s)" "a = snd e1" "b = snd e2"
      unfolding sn [symmetric] by auto
    with eq keys have "fst e1 = fst e2" by simp
    with df e(1,2) have "e1 = e2" by (auto simp: distinct_map dest: inj_onD)
    with e show "a = b" by simp
  qed
  ultimately show ?thesis using dn by (simp add: distinct_map)
qed


subsection \<open>Further facts about \<open>put\<close>\<close>



lemma ledger_last:
  assumes "ledger s ns" and "ns \<noteq> []"
  shows "prev (heap s (tail s)) = Some (last ns) \<and> last ns \<noteq> head s \<and> last ns \<noteq> tail s"
proof -
  from assms(1) have "follow (prev_of s) (tail s) (rev ns) (head s)" by (simp add: ledger_def)
  from follow_first [OF this] have "prev (heap s (tail s)) = Some (last ns)"
    using assms(2) by (simp add: hd_rev_last prev_of_def)
  moreover have "last ns \<in> set ns" using assms(2) by simp
  moreover from assms(1) have "head s \<notin> set ns" "tail s \<notin> set ns" by (simp_all add: ledger_def)
  ultimately show ?thesis by auto
qed


subsection \<open>Filling an empty cache\<close>









section \<open>The claims\<close>

text \<open>
  Claim C1. For a cache constructed with a positive capacity, after any sequence of calls of
  \<^verbatim>\<open>get\<close>, \<^verbatim>\<open>put\<close> and \<^verbatim>\<open>clear\<close>, the state that a further call of \<^verbatim>\<open>put\<close> leaves has
  \<^verbatim>\<open>size()\<close>, the number of entries of the dictionary, at most the capacity.
\<close>

theorem capacity_invariant:
  assumes "init cap = Inr s0"
  shows "size_lru (snd (put clk k v ttl_ms (run cs s0))) \<le> cap"
proof -
  have "snd (put clk k v ttl_ms (run cs s0)) = run (cs @ [Put clk k v ttl_ms]) s0"
    by (simp add: run_def)
  with init_run_inv [OF assms, of "cs @ [Put clk k v ttl_ms]"]
  show ?thesis by auto
qed

theorem capacity_invariant_witness:
  "init 2 = Inr (new_lru 2 :: (string, nat) lru) \<and>
   size_lru (snd (put (\<lambda>_. 200) (Some ''c'') (Some 3) 5000
      (run [Put (\<lambda>_. 0) (Some ''a'') (Some 1) 5000, Put (\<lambda>_. 10) (Some ''b'') (Some 2) 5000,
            Get 100 (Some ''a'')] (new_lru 2 :: (string, nat) lru)))) \<le> 2"
  using capacity_invariant [of 2 "new_lru 2 :: (string, nat) lru"] by (simp add: init_def)



text \<open>
  Claim C3. In a state that satisfies the invariant, \<^verbatim>\<open>get\<close> never raises and never
  returns the value of an expired record. For a key that is not in the dictionary it
  returns \<^verbatim>\<open>None\<close> and changes nothing. For a key whose record has an expiry time at or
  before the clock reading it returns \<^verbatim>\<open>None\<close> and removes that record, and only that
  one, from the dictionary and from the ledger. Otherwise it returns the stored value and
  moves the node to the front of the ledger, and the dictionary and all records stay as
  they are.
\<close>

theorem get_never_stale:
  assumes "cache_inv s ns"
  shows "(case map_of (cache s) k of
            None \<Rightarrow> get now k s = (Inr None, s)
          | Some a \<Rightarrow>
              if expire_time (heap s a) \<le> now
              then \<exists>s'. get now k s = (Inr None, s') \<and> cache s' = AList.delete k (cache s) \<and>
                     cache_inv s' (remove1 a ns) \<and> entry s' = (entry s)(k := None)
              else \<exists>s'. get now k s = (Inr (val (heap s a)), s') \<and> cache s' = cache s \<and>
                     cache_inv s' (a # remove1 a ns) \<and> entry s' = entry s) \<and>
         (\<forall>x. fst (get now k s) = Inr (Some x) \<longrightarrow>
            (\<exists>e. entry s k = Some (Some x, e) \<and> now < e))"
proof -
  have main: "case map_of (cache s) k of
            None \<Rightarrow> get now k s = (Inr None, s)
          | Some a \<Rightarrow>
              if expire_time (heap s a) \<le> now
              then \<exists>s'. get now k s = (Inr None, s') \<and> cache s' = AList.delete k (cache s) \<and>
                     cache_inv s' (remove1 a ns) \<and> entry s' = (entry s)(k := None)
              else \<exists>s'. get now k s = (Inr (val (heap s a)), s') \<and> cache s' = cache s \<and>
                     cache_inv s' (a # remove1 a ns) \<and> entry s' = entry s"
  proof (cases "map_of (cache s) k")
    case None
    then show ?thesis by (simp add: get_miss)
  next
    case (Some a)
    show ?thesis
    proof (cases "expire_time (heap s a) \<le> now")
      case True
      from get_stale [OF assms Some True] show ?thesis
        using Some True by (auto simp: entry_eq_delete)
    next
      case False
      then have "now < expire_time (heap s a)" by simp
      from get_hit [OF assms Some this] show ?thesis
        using Some False by (auto simp: entry_eq_same)
    qed
  qed
  moreover have "\<exists>e. entry s k = Some (Some x, e) \<and> now < e"
    if "fst (get now k s) = Inr (Some x)" for x
  proof (cases "map_of (cache s) k")
    case None
    with that show ?thesis by (simp add: get_miss)
  next
    case (Some a)
    with main that show ?thesis by (auto simp: entry_def split: if_splits)
  qed
  ultimately show ?thesis by blast
qed

theorem get_never_stale_witness:
  "cache_inv mixed_cache [4, 3, 2] \<and>
   (\<exists>s'. get 300 (Some ''a'') mixed_cache = (Inr None, s') \<and>
      cache s' = [(Some ''b'', 3), (Some ''c'', 4)] \<and> cache_inv s' [4, 3] \<and>
      entry s' = (entry mixed_cache)(Some ''a'' := None)) \<and>
   (\<exists>s'. get 300 (Some ''b'') mixed_cache = (Inr (Some 2), s') \<and>
      cache s' = cache mixed_cache \<and> cache_inv s' [3, 4, 2] \<and> entry s' = entry mixed_cache) \<and>
   get 300 (Some ''d'') mixed_cache = (Inr None, mixed_cache)"
proof -
  have h: "cache_inv mixed_cache [4, 3, 2]" by (simp add: mixed_cache_def run_defs)
  have f: "map_of (cache mixed_cache) (Some ''a'') = Some 2"
    "map_of (cache mixed_cache) (Some ''b'') = Some 3"
    "map_of (cache mixed_cache) (Some ''d'') = None"
    "expire_time (heap mixed_cache 2) = 200" "expire_time (heap mixed_cache 3) = 5000"
    "val (heap mixed_cache 3) = Some 2"
    "AList.delete (Some ''a'') (cache mixed_cache) = [(Some ''b'', 3), (Some ''c'', 4)]"
    by (simp_all add: mixed_cache_def run_defs)
  from get_never_stale [OF h, where k = "Some ''a''" and now = 300]
    get_never_stale [OF h, where k = "Some ''b''" and now = 300]
    get_never_stale [OF h, where k = "Some ''d''" and now = 300] h f
  show ?thesis by auto
qed





text \<open>
  Claim C6. A \<^verbatim>\<open>put\<close> with a time to live of zero or less raises the \<^verbatim>\<open>ValueError\<close>
  ``TTL must be positive'' and leaves the whole state of the cache as it was; constructing a
  cache with a capacity of zero or less raises the \<^verbatim>\<open>ValueError\<close> ``Capacity must be
  positive'' and yields no cache.
\<close>

theorem rejection_has_no_effect:
  "(ttl_ms \<le> 0 \<longrightarrow> put clk k v ttl_ms s = (Inl (ValueError ''TTL must be positive''), s)) \<and>
   (cap \<le> 0 \<longrightarrow> (init cap :: error + ('k, 'v) lru) = Inl (ValueError ''Capacity must be positive''))"
  by (simp add: put_def init_def)

theorem rejection_has_no_effect_witness:
  "put (\<lambda>_. 0) (Some ''key'') (Some 7) 0 small_cache =
     (Inl (ValueError ''TTL must be positive''), small_cache) \<and>
   (init 0 :: error + (string, nat) lru) = Inl (ValueError ''Capacity must be positive'')"
  using rejection_has_no_effect [of 0 "\<lambda>_. 0" "Some ''key''" "Some 7" small_cache 0]
  by simp

text \<open>
  Claim C7. Every state reached from a constructed cache by calls of \<^verbatim>\<open>get\<close>, \<^verbatim>\<open>put\<close> and
  \<^verbatim>\<open>clear\<close> satisfies the structural invariant, and every call preserves it. In a state
  that satisfies it with the ledger \<open>ns\<close>, \<^verbatim>\<open>next\<close> leads from the head through \<open>ns\<close> to
  the tail and \<^verbatim>\<open>prev\<close> leads from the tail through the same nodes in reverse to the head,
  the keys of the dictionary are the keys on the nodes of \<open>ns\<close>, and no two of these nodes
  carry the same key.
\<close>

theorem structural_invariant:
  "(init cap = Inr s0 \<longrightarrow> (\<exists>ns. cache_inv (run cs s0) ns)) \<and>
   (cache_inv s ns \<longrightarrow>
      (\<exists>ns'. cache_inv (step c s) ns') \<and>
      follow (nxt_of s) (head s) ns (tail s) \<and>
      follow (prev_of s) (tail s) (rev ns) (head s) \<and>
      set (map fst (cache s)) = set (map (\<lambda>a. key (heap s a)) ns) \<and>
      distinct (map (\<lambda>a. key (heap s a)) ns) \<and>
      length (cache s) = length ns)"
proof (intro conjI impI)
  assume "init cap = Inr s0"
  from init_run_inv [OF this, of cs] show "\<exists>ns. cache_inv (run cs s0) ns" by blast
next
  assume inv: "cache_inv s ns"
  from step_inv [OF inv, of c] show "\<exists>ns'. cache_inv (step c s) ns'" by blast
  from inv show "follow (nxt_of s) (head s) ns (tail s)"
    and "follow (prev_of s) (tail s) (rev ns) (head s)"
    by (simp_all add: cache_inv_def ledger_def)
  from inv_keys [OF inv] show "set (map fst (cache s)) = set (map (\<lambda>a. key (heap s a)) ns)"
    and "distinct (map (\<lambda>a. key (heap s a)) ns)"
    by simp_all
  from inv show "length (cache s) = length ns" by (rule cache_inv_length)
qed

theorem structural_invariant_witness:
  "init 2 = Inr (new_lru 2 :: (string, nat) lru) \<and>
   (\<exists>ns. cache_inv (run [Put (\<lambda>_. 0) (Some ''a'') (Some 1) 5000, Get 10 (Some ''a''), Clear]
            (new_lru 2 :: (string, nat) lru)) ns) \<and>
   cache_inv small_cache [3, 2] \<and>
   (\<exists>ns'. cache_inv (step (Put (\<lambda>_. 100) (Some ''c'') (Some 3) 5000) small_cache) ns') \<and>
   map fst (cache small_cache) = [Some ''a'', Some ''b''] \<and>
   map (\<lambda>a. key (heap small_cache a)) [3, 2] = [Some ''b'', Some ''a'']"
proof -
  have i: "init 2 = Inr (new_lru 2 :: (string, nat) lru)" by (simp add: init_def)
  have inv: "cache_inv small_cache [3, 2]" by (simp add: small_cache_def run_defs)
  have k: "map fst (cache small_cache) = [Some ''a'', Some ''b'']"
    "map (\<lambda>a. key (heap small_cache a)) [3, 2] = [Some ''b'', Some ''a'']"
    by (simp_all add: small_cache_def run_defs)
  from i inv k
    structural_invariant [of 2 "new_lru 2 :: (string, nat) lru"
      "[Put (\<lambda>_. 0) (Some ''a'') (Some 1) 5000, Get 10 (Some ''a''), Clear]"
      small_cache "[3, 2]" "Put (\<lambda>_. 100) (Some ''c'') (Some 3) 5000"]
  show ?thesis by blast
qed

text \<open>
  Claim C8. \<^verbatim>\<open>clear\<close> never raises. After it \<^verbatim>\<open>size()\<close> is 0, \<^verbatim>\<open>get\<close> returns
  \<^verbatim>\<open>None\<close> for every key and changes nothing, the head's \<^verbatim>\<open>next\<close> is the tail and the
  tail's \<^verbatim>\<open>prev\<close> is the head, so that the ledger holds no node, and a second \<^verbatim>\<open>clear\<close>
  leaves the state as the first one left it.
\<close>

theorem clear_empties:
  "\<exists>s'. clear s = (Inr (), s') \<and> size_lru s' = 0 \<and>
        (\<forall>now k. get now k s' = (Inr None, s')) \<and>
        nxt (heap s' (head s')) = Some (tail s') \<and> prev (heap s' (tail s')) = Some (head s') \<and>
        (head s \<noteq> tail s \<longrightarrow> ledger s' []) \<and>
        (\<forall>ns. cache_inv s ns \<longrightarrow> cache_inv s' []) \<and>
        clear s' = (Inr (), s')"
proof -
  define s' where "s' = snd (clear s)"
  have c: "clear s = (Inr (), s')" by (simp add: s'_def clear_def Let_def)
  have "size_lru s' = 0" by (simp add: s'_def size_lru_def clear_fields)
  moreover have "\<forall>now k. get now k s' = (Inr None, s')"
    by (simp add: get_miss s'_def clear_fields)
  moreover have "nxt (heap s' (head s')) = Some (tail s')" "prev (heap s' (tail s')) = Some (head s')"
    using clear_fields(7,8) [of s] by (simp_all add: s'_def clear_fields nxt_of_def prev_of_def)
  moreover have "head s \<noteq> tail s \<longrightarrow> ledger s' []" by (simp add: s'_def clear_ledger)
  moreover have "\<forall>ns. cache_inv s ns \<longrightarrow> cache_inv s' []" by (simp add: s'_def clear_inv)
  moreover have "clear s' = (Inr (), s')"
    by (cases "head s = tail s")
      (simp_all add: s'_def clear_def set_nxt_def set_prev_def Let_def fun_upd_twist)
  ultimately show ?thesis using c by blast
qed

theorem clear_empties_witness:
  "head small_cache \<noteq> tail small_cache \<and> cache_inv small_cache [3, 2] \<and>
   size_lru small_cache = 2 \<and>
   (\<exists>s'. clear small_cache = (Inr (), s') \<and> size_lru s' = 0 \<and>
      get 10 (Some ''a'') s' = (Inr None, s') \<and> get 10 (Some ''b'') s' = (Inr None, s') \<and>
      ledger s' [] \<and> cache_inv s' [] \<and> clear s' = (Inr (), s'))"
proof -
  have h: "head small_cache \<noteq> tail small_cache" "cache_inv small_cache [3, 2]"
    "size_lru small_cache = 2"
    by (simp_all add: small_cache_def run_defs)
  from clear_empties [of small_cache] h show ?thesis by blast
qed

text \<open>
  Claim C9. Let a \<^verbatim>\<open>put\<close> with a positive time to live on a new key, in a state that
  satisfies the invariant, reach the eviction: the cache is full when the new node has been
  made, and still full in the state \<open>sw\<close> that the sweep leaves. Then the sweep has
  returned normally, the ledger of \<open>sw\<close> is not empty, the node before the tail is its last
  node and is neither sentinel, \<^verbatim>\<open>_remove_tail\<close> returns that node, its key is in the
  dictionary, so that the deletion does not raise, and the \<^verbatim>\<open>put\<close> returns normally.
\<close>

theorem eviction_is_safe:
  assumes "cache_inv s ns" and "0 < ttl_ms" and "map_of (cache s) k = None"
    and "capacity (snd (Node k v (clk 0 + real_of_int ttl_ms) s))
           \<le> int (length (cache (snd (Node k v (clk 0 + real_of_int ttl_ms) s))))"
    and "cleanup_expired (\<lambda>i. clk (Suc i)) (snd (Node k v (clk 0 + real_of_int ttl_ms) s)) = (r, sw)"
    and "capacity sw \<le> int (length (cache sw))"
  shows "r = Inr () \<and>
         (\<exists>ns2 s3 s4. cache_inv sw ns2 \<and> ns2 \<noteq> [] \<and>
            prev (heap sw (tail sw)) = Some (last ns2) \<and>
            last ns2 \<noteq> head sw \<and> last ns2 \<noteq> tail sw \<and>
            remove_tail sw = (Inr (last ns2), s3) \<and>
            map_of (cache s3) (key (heap s3 (last ns2))) = Some (last ns2) \<and>
            del_cache (key (heap s3 (last ns2))) s3 = (Inr (), s4)) \<and>
         fst (put clk k v ttl_ms s) = Inr ()"
proof -
  let ?clk = "\<lambda>i. clk (Suc i)"
  let ?s1 = "snd (Node k v (clk 0 + real_of_int ttl_ms) s)"
  have inv1: "cache_inv ?s1 ns" using assms(1) by (rule Node_inv)
  from cleanup_expired_inv [OF inv1, of ?clk] assms(5)
  obtain ns2 where r: "r = Inr ()" and inv2: "cache_inv sw ns2" by auto
  from evict_lru [OF inv2 assms(6)]
  obtain s3 s4 where ne: "ns2 \<noteq> []" and rt: "remove_tail sw = (Inr (last ns2), s3)"
    and m: "map_of (cache s3) (key (heap s3 (last ns2))) = Some (last ns2)"
    and d: "del_cache (key (heap s3 (last ns2))) s3 = (Inr (), s4)"
    by blast
  from inv2 have "ledger sw ns2" by (simp add: cache_inv_def)
  note l = ledger_last [OF this ne]
  from assms(4) have "capacity s \<le> int (length (cache s))" by (simp add: Node_fields)
  from put_full [OF assms(1-3) this, where clk = clk and v = v]
  have "fst (put clk k v ttl_ms s) = Inr ()" by auto
  with r inv2 ne l rt m d show ?thesis by blast
qed

theorem eviction_is_safe_witness:
  "cache_inv small_cache [3, 2] \<and> map_of (cache small_cache) (Some ''c'') = None \<and>
   capacity (snd (Node (Some ''c'') (Some 3) 5100 small_cache))
     \<le> int (length (cache (snd (Node (Some ''c'') (Some 3) 5100 small_cache)))) \<and>
   capacity (snd (cleanup_expired (\<lambda>i. 100) (snd (Node (Some ''c'') (Some 3) 5100 small_cache))))
     \<le> int (length (cache (snd (cleanup_expired (\<lambda>i. 100)
           (snd (Node (Some ''c'') (Some 3) 5100 small_cache)))))) \<and>
   fst (cleanup_expired (\<lambda>i. 100) (snd (Node (Some ''c'') (Some 3) 5100 small_cache))) = Inr () \<and>
   fst (remove_tail (snd (cleanup_expired (\<lambda>i. 100)
          (snd (Node (Some ''c'') (Some 3) 5100 small_cache))))) = Inr 2 \<and>
   fst (put (\<lambda>_. 100) (Some ''c'') (Some 3) 5000 small_cache) = Inr ()"
proof -
  let ?s1 = "snd (Node (Some ''c'') (Some 3) 5100 small_cache)"
  let ?s2 = "snd (cleanup_expired (\<lambda>i. 100) ?s1)"
  have h: "cache_inv small_cache [3, 2]" "(0 :: int) < 5000"
    "map_of (cache small_cache) (Some ''c'') = None"
    by (simp_all add: small_cache_def run_defs)
  have f1: "capacity ?s1 \<le> int (length (cache ?s1))"
    by (simp add: small_cache_def run_defs)
  have f2: "capacity ?s2 \<le> int (length (cache ?s2))"
    by (simp add: small_cache_def run_defs)
  have rt: "fst (remove_tail ?s2) = Inr 2"
    by (simp add: small_cache_def run_defs)
  have c: "cleanup_expired (\<lambda>i. 100) (snd (Node (Some ''c'') (Some 3) ((\<lambda>_. 100) 0 + real_of_int 5000) small_cache))
           = (fst (cleanup_expired (\<lambda>i. 100) ?s1), ?s2)"
    by simp
  from eviction_is_safe [where clk = "\<lambda>_. 100" and v = "Some 3" and ttl_ms = 5000 and s = small_cache
      and k = "Some ''c''" and ns = "[3, 2]" and sw = ?s2 and r = "fst (cleanup_expired (\<lambda>i. 100) ?s1)"]
    h f1 f2 rt c
  show ?thesis by simp
qed



end
